theory Spec2Isabelle
  imports Complex_Main "HOL-Library.Word" "HOL-Library.Monad_Syntax"
begin

section \<open>Data model\<close>

text \<open>
  Modelled from the spec: the header quanteda.h, which declares the container types
  Text, Texts, Ngram, VecNgrams, MapNgrams, IntParams and DoubleParams, is not among the
  sources. Their use in sequences_mt.cpp and section 3 of the specification fix them as
  follows. A token is an unsigned int; the value 0 is the padding that separates runs.
  A Text and an Ngram are vectors of tokens. MapNgrams, the frequency table, maps an
  Ngram to its occurrence count; it is an association list with one pair for each key,
  in the order in which the keys were first counted (the specification leaves the order
  open, and no theorem below depends on it). A count is a natural number: it never
  exceeds the number of tokens of the corpus, so the wrap-around of the unsigned counter
  is not modelled. IntParams is a vector of int, DoubleParams a vector of double.

  Indices and sizes are size_t values bounded by the size of the data; they are natural
  numbers. The bounds len_min and len_max are unsigned ints that are only compared with
  sizes, so they are natural numbers too. Only the sequential branch of the two
  preprocessor alternatives is modelled; the workers of the parallel branch call the
  same functions.
\<close>

type_synonym token = "32 word"
type_synonym Text = "token list"
type_synonym Ngram = "token list"
type_synonym MapNgrams = "(Ngram \<times> nat) list"

text \<open>
  Reading and writing a vector element with \<^verbatim>\<open>operator[]\<close> is undefined behaviour
  beyond the size of the vector. Functions that index a vector return an option, and
  \<open>None\<close> stands for undefined behaviour.
\<close>

definition vec_at :: "'a list \<Rightarrow> nat \<Rightarrow> 'a option" where
  "vec_at xs i = (if i < length xs then Some (xs ! i) else None)"

definition vec_set :: "'a list \<Rightarrow> nat \<Rightarrow> 'a \<Rightarrow> 'a list option" where
  "vec_set xs i v = (if i < length xs then Some (xs[i := v]) else None)"

section \<open>The bit comparator \<^verbatim>\<open>match_bit2\<close>\<close>

text \<open>
  The accumulator \<^verbatim>\<open>bit\<close> is a C++ \<^verbatim>\<open>int\<close> (32 bits, two's complement).
  The statement \<^verbatim>\<open>bit += std::pow(2, i)\<close> adds in \<^verbatim>\<open>double\<close> and converts the sum
  back to \<^verbatim>\<open>int\<close>; the sum of an \<^verbatim>\<open>int\<close> and a power of two is exact in
  \<^verbatim>\<open>double\<close> whenever it is in the range of \<^verbatim>\<open>int\<close>, and the conversion of a value
  outside that range is undefined behaviour, which the model writes as \<open>None\<close>.
\<close>

definition add_pow2 :: "int \<Rightarrow> nat \<Rightarrow> int option" where
  "add_pow2 bitv i =
     (let v = bitv + 2 ^ i
      in if - (2 ^ 31) \<le> v \<and> v \<le> 2 ^ 31 - 1 then Some v else None)"

function match_bit2_loop :: "token list \<Rightarrow> token list \<Rightarrow> nat \<Rightarrow> int \<Rightarrow> int option" where
  "match_bit2_loop tokens1 tokens2 i bitv =
     (if i < length tokens1 \<and> i < length tokens2 then
        (if tokens1 ! i = tokens2 ! i then
           (case add_pow2 bitv i of
              None \<Rightarrow> None
            | Some bitv' \<Rightarrow> match_bit2_loop tokens1 tokens2 (i + 1) bitv')
         else match_bit2_loop tokens1 tokens2 (i + 1) bitv)
      else Some bitv)"
  by pat_completeness auto
termination
  by (relation "measure (\<lambda>(tokens1, tokens2, i, bitv). length tokens1 - i)") auto

declare match_bit2_loop.simps [simp del]

definition match_bit2 :: "token list \<Rightarrow> token list \<Rightarrow> int option" where
  "match_bit2 tokens1 tokens2 = match_bit2_loop tokens1 tokens2 0 0"

text \<open>
  The bitmask as the specification words it: the sum of \<open>2 ^ i\<close> over the positions
  below both lengths that hold equal tokens.
\<close>

definition bitmask_from :: "nat \<Rightarrow> token list \<Rightarrow> token list \<Rightarrow> nat" where
  "bitmask_from k a b =
     (\<Sum>i\<leftarrow>[k..<min (length a) (length b)]. if a ! i = b ! i then 2 ^ i else 0)"

definition bitmask :: "token list \<Rightarrow> token list \<Rightarrow> nat" where
  "bitmask a b = bitmask_from 0 a b"

section \<open>The statistic estimators\<close>

text \<open>
  A double is modelled as the real number it holds, or as \<open>NotFinite\<close>, which stands for
  the infinities and NaN. The double that an operation on finite doubles returns is a
  rounding of its exact result, and it is \<open>NotFinite\<close> where the exponent overflows.
  The roundings are a parameter of the model, an \<open>arithmetic\<close>, and none is fixed:
  \<open>round_op\<close> is the rounding of the operations that IEEE 754 rounds correctly
  (addition, subtraction, multiplication, division, square root and the conversion of
  an integer), \<open>round_pow\<close> that of \<^verbatim>\<open>std::pow\<close> and \<open>round_log\<close> that of
  \<^verbatim>\<open>std::log\<close>, whose accuracy is left to the C library. Each maps the exact result to
  the double returned, and every operation of the source is rounded on its own. What
  holds for every arithmetic holds for the doubles of the machine.

  Division by zero, the logarithm of a number that is not positive and the square root
  of a negative number give \<open>NotFinite\<close>, and every operation below maps a
  \<open>NotFinite\<close> operand to \<open>NotFinite\<close>, as IEEE arithmetic does for these
  operations. The two zeros of IEEE arithmetic are one value here: of the operations
  below only the division by zero tells them apart, and both of its results are
  \<open>NotFinite\<close>. The entries of a contingency vector are finite doubles, so the vector
  is a list of reals and the divisor of a division is a real.
\<close>

datatype double = Finite real | NotFinite

record arithmetic =
  round_op :: "real \<Rightarrow> double"
  round_pow :: "real \<Rightarrow> double"
  round_log :: "real \<Rightarrow> double"

fun dadd :: "arithmetic \<Rightarrow> double \<Rightarrow> double \<Rightarrow> double" where
  "dadd A (Finite x) (Finite y) = round_op A (x + y)"
| "dadd A _ _ = NotFinite"

fun dsub :: "arithmetic \<Rightarrow> double \<Rightarrow> double \<Rightarrow> double" where
  "dsub A (Finite x) (Finite y) = round_op A (x - y)"
| "dsub A _ _ = NotFinite"

fun dmul :: "arithmetic \<Rightarrow> double \<Rightarrow> double \<Rightarrow> double" where
  "dmul A (Finite x) (Finite y) = round_op A (x * y)"
| "dmul A _ _ = NotFinite"

fun ddiv :: "arithmetic \<Rightarrow> double \<Rightarrow> real \<Rightarrow> double" where
  "ddiv A (Finite x) y = (if y = 0 then NotFinite else round_op A (x / y))"
| "ddiv A NotFinite y = NotFinite"

definition dlog :: "arithmetic \<Rightarrow> real \<Rightarrow> double" where
  "dlog A x = (if 0 < x then round_log A (ln x) else NotFinite)"

fun dsqrt :: "arithmetic \<Rightarrow> double \<Rightarrow> double" where
  "dsqrt A (Finite x) = (if 0 \<le> x then round_op A (sqrt x) else NotFinite)"
| "dsqrt A NotFinite = NotFinite"

text \<open>
  \<^verbatim>\<open>std::pow(x, k)\<close> for a double \<open>x\<close> and a natural number \<open>k\<close>, and the conversion
  of a size_t to a double.
\<close>

fun dpow :: "arithmetic \<Rightarrow> double \<Rightarrow> nat \<Rightarrow> double" where
  "dpow A (Finite x) k = round_pow A (x ^ k)"
| "dpow A NotFinite k = NotFinite"

definition of_size_t :: "arithmetic \<Rightarrow> nat \<Rightarrow> double" where
  "of_size_t A k = round_op A (real k)"

text \<open>
  Subtraction of size_t values wraps around modulo \<open>2 ^ 64\<close>.
\<close>

definition size_t_sub :: "nat \<Rightarrow> nat \<Rightarrow> nat" where
  "size_t_sub a b = (if b \<le> a then a - b else 2 ^ 64 + a - b)"

subsection \<open>Unigram subtuples\<close>

function sigma_uni_loop ::
  "arithmetic \<Rightarrow> real list \<Rightarrow> nat \<Rightarrow> nat \<Rightarrow> double \<Rightarrow> double option" where
  "sigma_uni_loop A counts ntokens b s =
     (if b < ntokens then
        do {
          c \<leftarrow> vec_at counts (2 ^ b);
          sigma_uni_loop A counts ntokens (b + 1) (dadd A s (ddiv A (Finite 1) c))
        }
      else Some s)"
  by pat_completeness auto
termination
  by (relation "measure (\<lambda>(A, counts, ntokens, b, s). ntokens - b)") auto

declare sigma_uni_loop.simps [simp del]

definition sigma_uni :: "arithmetic \<Rightarrow> real list \<Rightarrow> nat \<Rightarrow> double option" where
  "sigma_uni A counts ntokens =
     do {
       c0 \<leftarrow> vec_at counts 0;
       s \<leftarrow> sigma_uni_loop A counts ntokens 0
              (dadd A (Finite 0)
                 (ddiv A (dpow A (of_size_t A (size_t_sub ntokens 1)) 2) c0));
       cn \<leftarrow> vec_at counts (2 ^ ntokens - 1);
       Some (dsqrt A (dadd A s (ddiv A (Finite 1) cn)))
     }"

function lambda_uni_loop ::
  "arithmetic \<Rightarrow> real list \<Rightarrow> nat \<Rightarrow> nat \<Rightarrow> double \<Rightarrow> double option" where
  "lambda_uni_loop A counts ntokens b l =
     (if b < ntokens then
        do {
          c \<leftarrow> vec_at counts (2 ^ b);
          lambda_uni_loop A counts ntokens (b + 1) (dsub A l (dlog A c))
        }
      else Some l)"
  by pat_completeness auto
termination
  by (relation "measure (\<lambda>(A, counts, ntokens, b, l). ntokens - b)") auto

declare lambda_uni_loop.simps [simp del]

definition lambda_uni :: "arithmetic \<Rightarrow> real list \<Rightarrow> nat \<Rightarrow> double option" where
  "lambda_uni A counts ntokens =
     do {
       c0 \<leftarrow> vec_at counts 0;
       l \<leftarrow> lambda_uni_loop A counts ntokens 0
              (dadd A (Finite 0)
                 (dmul A (dlog A c0) (of_size_t A (size_t_sub ntokens 1))));
       cn \<leftarrow> vec_at counts (2 ^ ntokens - 1);
       Some (dadd A l (dlog A cn))
     }"

subsection \<open>All subtuples\<close>

function bitCount_loop :: "nat \<Rightarrow> nat \<Rightarrow> nat" where
  "bitCount_loop n counter =
     (if n \<noteq> 0 then bitCount_loop (n div 2) (counter + n mod 2) else counter)"
  by pat_completeness auto
termination
  by (relation "measure (\<lambda>(n, counter). n)") auto

declare bitCount_loop.simps [simp del]

definition bitCount :: "nat \<Rightarrow> nat" where
  "bitCount n = bitCount_loop n 0"

function sigma_all_loop :: "arithmetic \<Rightarrow> real list \<Rightarrow> nat \<Rightarrow> double \<Rightarrow> double" where
  "sigma_all_loop A counts b s =
     (if b < length counts then
        sigma_all_loop A counts (b + 1) (dadd A s (ddiv A (Finite 1) (counts ! b)))
      else s)"
  by pat_completeness auto
termination
  by (relation "measure (\<lambda>(A, counts, b, s). length counts - b)") auto

declare sigma_all_loop.simps [simp del]

definition sigma_all :: "arithmetic \<Rightarrow> real list \<Rightarrow> double" where
  "sigma_all A counts = dsqrt A (sigma_all_loop A counts 0 (Finite 0))"

text \<open>
  \<^verbatim>\<open>std::pow(-1, ntokens - bitCount(b))\<close>: the exponent is a size_t difference. Where
  \<open>bitCount b\<close> exceeds \<open>ntokens\<close> it wraps to a value of at least \<open>2 ^ 63\<close>,
  which as a double is an even integer, so the power is 1. A power of \<open>-1\<close> with an
  integer exponent is \<open>1\<close> or \<open>-1\<close> and is returned without rounding.
\<close>

definition pow_minus1 :: "nat \<Rightarrow> nat \<Rightarrow> real" where
  "pow_minus1 ntokens k = (if k \<le> ntokens then (- 1) ^ (ntokens - k) else 1)"

function lambda_all_loop ::
  "arithmetic \<Rightarrow> real list \<Rightarrow> nat \<Rightarrow> nat \<Rightarrow> double \<Rightarrow> double" where
  "lambda_all_loop A counts ntokens b l =
     (if b < length counts then
        lambda_all_loop A counts ntokens (b + 1)
          (dadd A l (dmul A (Finite (pow_minus1 ntokens (bitCount b))) (dlog A (counts ! b))))
      else l)"
  by pat_completeness auto
termination
  by (relation "measure (\<lambda>(A, counts, ntokens, b, l). length counts - b)") auto

declare lambda_all_loop.simps [simp del]

definition lambda_all :: "arithmetic \<Rightarrow> real list \<Rightarrow> nat \<Rightarrow> double" where
  "lambda_all A counts ntokens = lambda_all_loop A counts ntokens 0 (Finite 0)"

section \<open>The sequence counter\<close>

text \<open>
  \<^verbatim>\<open>counts_seq[tokens_seq]++\<close>: the key is inserted with the count 0 when it is
  absent, and its count goes up by one.
\<close>

fun increment :: "Ngram \<Rightarrow> MapNgrams \<Rightarrow> MapNgrams" where
  "increment k [] = [(k, 1)]"
| "increment k ((k', c) # m) =
     (if k' = k then (k', c + 1) # m else (k', c) # increment k m)"

text \<open>
  The inner loop over \<open>j\<close>, from the current \<open>j\<close> to its \<^verbatim>\<open>break\<close> or to the end
  of the text. It returns the value \<open>i\<close> has when the loop is left (\<open>j\<close> after the
  jump of the non-nested mode), the buffer \<open>tokens_seq\<close> and the table.
\<close>

function counts_inner ::
  "Text \<Rightarrow> nat \<Rightarrow> nat \<Rightarrow> bool \<Rightarrow> nat \<Rightarrow> nat \<Rightarrow> Ngram \<Rightarrow> MapNgrams
     \<Rightarrow> nat \<times> Ngram \<times> MapNgrams" where
  "counts_inner text len_min len_max nested i j tokens_seq counts_seq =
     (if j < length text then
        (let token = text ! j;
             is_in = \<not> (token = 0 \<or> j - i \<ge> len_max)
         in if is_in then
              counts_inner text len_min len_max nested i (j + 1) (tokens_seq @ [token]) counts_seq
            else
              (if \<not> nested then j else i, [],
               if length tokens_seq \<ge> len_min then increment tokens_seq counts_seq
               else counts_seq))
      else (i, tokens_seq, counts_seq))"
  by pat_completeness auto
termination
  by (relation "measure (\<lambda>(text, len_min, len_max, nested, i, j, tokens_seq, counts_seq).
        length text - j)") auto

declare counts_inner.simps [simp del]

lemma counts_inner_start:
  "i \<le> j \<Longrightarrow> i \<le> fst (counts_inner text len_min len_max nested i j tokens_seq counts_seq)"
proof (induction "text" len_min len_max nested i j tokens_seq counts_seq
    rule: counts_inner.induct)
  case (1 tx len_min len_max nested i j tokens_seq counts_seq)
  then show ?case
    by (subst counts_inner.simps) (auto simp: Let_def)
qed

text \<open>
  The outer loop over \<open>i\<close>; the increment \<^verbatim>\<open>i++\<close> of the loop header follows the
  body, also after the jump \<^verbatim>\<open>i = j\<close>.
\<close>

function counts_outer ::
  "Text \<Rightarrow> nat \<Rightarrow> nat \<Rightarrow> bool \<Rightarrow> nat \<Rightarrow> Ngram \<Rightarrow> MapNgrams \<Rightarrow> MapNgrams" where
  "counts_outer text len_min len_max nested i tokens_seq counts_seq =
     (if i < length text then
        (case counts_inner text len_min len_max nested i i tokens_seq counts_seq of
           (i', tokens_seq', counts_seq') \<Rightarrow>
             counts_outer text len_min len_max nested (i' + 1) tokens_seq' counts_seq')
      else counts_seq)"
  by pat_completeness auto
termination
proof (relation "measure (\<lambda>(text, len_min, len_max, nested, i, tokens_seq, counts_seq).
        length text - i)", goal_cases)
  case 1
  show ?case by simp
next
  case (2 tx len_min len_max nested i tokens_seq counts_seq x y xa ya)
  have "i \<le> fst (counts_inner tx len_min len_max nested i i tokens_seq counts_seq)"
    by (rule counts_inner_start) simp
  with 2(2) have "i \<le> x"
    by (metis fst_conv)
  with 2(1) show ?case by simp
qed

declare counts_outer.simps [simp del]

definition counts :: "Text \<Rightarrow> MapNgrams \<Rightarrow> nat \<Rightarrow> nat \<Rightarrow> bool \<Rightarrow> MapNgrams" where
  "counts text counts_seq len_min len_max nested =
     (if length text = 0 then counts_seq
      else counts_outer (text @ [0]) len_min len_max nested 0 [] counts_seq)"

text \<open>The loop of the driver over the texts of the corpus.\<close>

fun counts_texts :: "Text list \<Rightarrow> MapNgrams \<Rightarrow> nat \<Rightarrow> nat \<Rightarrow> bool \<Rightarrow> MapNgrams" where
  "counts_texts [] counts_seq len_min len_max nested = counts_seq"
| "counts_texts (t # texts) counts_seq len_min len_max nested =
     counts_texts texts (counts t counts_seq len_min len_max nested) len_min len_max nested"

section \<open>The candidate estimator\<close>

text \<open>
  The loop over \<open>j\<close> that fills the contingency vector \<open>counts_bit\<close>; the bucket of
  candidate \<open>j\<close> is the bitmask \<^verbatim>\<open>match_bit2(seqs[i], seqs[j])\<close>, and it receives
  \<^verbatim>\<open>cs[j]\<close>. The bitmask is an int that indexes the vector; \<open>match_bit2\<close> returns
  no negative value (see \<open>match_bit2_char\<close> below), so the index is \<open>nat bitv\<close>.
\<close>

function counts_bit_loop ::
  "nat \<Rightarrow> Ngram list \<Rightarrow> int list \<Rightarrow> nat \<Rightarrow> real list \<Rightarrow> real list option" where
  "counts_bit_loop i seqs cs j counts_bit =
     (if j < length seqs then
        (if i = j then counts_bit_loop i seqs cs (j + 1) counts_bit
         else
           do {
             seq_i \<leftarrow> vec_at seqs i;
             bitv \<leftarrow> match_bit2 seq_i (seqs ! j);
             c_j \<leftarrow> vec_at cs j;
             old \<leftarrow> vec_at counts_bit (nat bitv);
             counts_bit_loop i seqs cs (j + 1) (counts_bit[nat bitv := old + of_int c_j])
           })
      else Some counts_bit)"
  by pat_completeness auto
termination
  by (relation "measure (\<lambda>(i, seqs, cs, j, counts_bit). length seqs - j)") auto

declare counts_bit_loop.simps [simp del]

text \<open>
  The contingency vector that \<^verbatim>\<open>estimates\<close> passes to the statistic estimators: \<open>2 ^ n\<close>
  entries that start at 0.5, the loop above, and \<^verbatim>\<open>cs[i] - 1\<close> added to the last entry.
  The elements of \<open>cs\<close> are ints; the subtraction is written on unbounded integers, as
  it overflows for the smallest int only, which is no count.
\<close>

definition contingency :: "nat \<Rightarrow> Ngram list \<Rightarrow> int list \<Rightarrow> real list option" where
  "contingency i seqs cs =
     do {
       seq_i \<leftarrow> vec_at seqs i;
       counts_bit \<leftarrow> counts_bit_loop i seqs cs 0 (replicate (2 ^ length seq_i) (1 / 2));
       c_i \<leftarrow> vec_at cs i;
       old \<leftarrow> vec_at counts_bit (2 ^ length seq_i - 1);
       Some (counts_bit[2 ^ length seq_i - 1 := old + of_int (c_i - 1)])
     }"

definition estimates ::
  "arithmetic \<Rightarrow> nat \<Rightarrow> Ngram list \<Rightarrow> int list \<Rightarrow> double list \<Rightarrow> double list \<Rightarrow> string \<Rightarrow> int
     \<Rightarrow> (double list \<times> double list) option" where
  "estimates A i seqs cs ss ls method count_min =
     do {
       seq_i \<leftarrow> vec_at seqs i;
       if length seq_i = 1 then Some (ss, ls)
       else
         do {
           c_i \<leftarrow> vec_at cs i;
           if c_i < count_min then Some (ss, ls)
           else
             do {
               counts_bit \<leftarrow> contingency i seqs cs;
               if method = ''unigram'' then
                 do {
                   s \<leftarrow> sigma_uni A counts_bit (length seq_i);
                   ss' \<leftarrow> vec_set ss i s;
                   l \<leftarrow> lambda_uni A counts_bit (length seq_i);
                   ls' \<leftarrow> vec_set ls i l;
                   Some (ss', ls')
                 }
               else
                 do {
                   ss' \<leftarrow> vec_set ss i (sigma_all A counts_bit);
                   ls' \<leftarrow> vec_set ls i (lambda_all A counts_bit (length seq_i));
                   Some (ss', ls')
                 }
             }
         }
     }"

section \<open>The driver\<close>

text \<open>The loop of the driver over the candidates.\<close>

function estimates_loop ::
  "arithmetic \<Rightarrow> nat \<Rightarrow> Ngram list \<Rightarrow> int list \<Rightarrow> double list \<Rightarrow> double list \<Rightarrow> string \<Rightarrow> int
     \<Rightarrow> (double list \<times> double list) option" where
  "estimates_loop A i seqs cs ss ls method count_min =
     (if i < length seqs then
        (case estimates A i seqs cs ss ls method count_min of
           None \<Rightarrow> None
         | Some (ss', ls') \<Rightarrow> estimates_loop A (i + 1) seqs cs ss' ls' method count_min)
      else Some (ss, ls))"
  by pat_completeness auto
termination
  by (relation "measure (\<lambda>(A, i, seqs, cs, ss, ls, method, count_min). length seqs - i)") auto

declare estimates_loop.simps [simp del]

text \<open>
  One row of the data frame that the driver returns. The column \<open>collocation\<close> holds
  the token ids of the sequence (the attribute \<^verbatim>\<open>tokens\<close> of the data frame); joining
  their words into a string is the work of \<^verbatim>\<open>join\<close> and of the vector of types, which
  are outside this file.
\<close>

record candidate =
  collocation :: Ngram
  count :: int
  len :: nat
  lambda :: double
  sigma :: double

text \<open>
  The driver. The parameter \<open>count_min\<close> is an unsigned int, and \<^verbatim>\<open>estimates\<close> takes
  it as an int: the conversion reads the same 32 bits as a two's complement number. The
  vectors \<open>ss\<close> and \<open>ls\<close> are built by \<^verbatim>\<open>DoubleParams ss(len)\<close>, the constructor of
  a vector of doubles with a size, which sets every element to 0.0.
\<close>

definition qatd_cpp_sequences ::
  "arithmetic \<Rightarrow> Text list \<Rightarrow> 32 word \<Rightarrow> nat \<Rightarrow> nat \<Rightarrow> string \<Rightarrow> bool \<Rightarrow> candidate list option" where
  "qatd_cpp_sequences A texts count_min len_min len_max method nested =
     (let counts_seq = counts_texts texts [] len_min len_max nested;
          seqs = map fst counts_seq;
          cs = map (\<lambda>(k, c). int c) counts_seq;
          ns = map (\<lambda>(k, c). length k) counts_seq;
          ss = replicate (length counts_seq) (Finite 0);
          ls = replicate (length counts_seq) (Finite 0)
      in case estimates_loop A 0 seqs cs ss ls method (sint count_min) of
           None \<Rightarrow> None
         | Some (ss', ls') \<Rightarrow>
             Some (map (\<lambda>i. \<lparr>collocation = seqs ! i, count = cs ! i, len = ns ! i,
                                lambda = ls' ! i, sigma = ss' ! i\<rparr>)
                       [0..<length seqs]))"

section \<open>Notions used to state the properties\<close>

text \<open>
  The window that one start position contributes: the longest run of tokens other than
  the boundary token 0 that starts at position \<open>i\<close> of the text, cut after \<open>len_max\<close>
  tokens.
\<close>

definition run_from :: "Text \<Rightarrow> nat \<Rightarrow> nat \<Rightarrow> Ngram" where
  "run_from text len_max i = takeWhile (\<lambda>t. t \<noteq> 0) (take len_max (drop i text))"

text \<open>Counting a closed run: its count goes up if it has at least \<open>len_min\<close> tokens.\<close>

definition tally :: "nat \<Rightarrow> Ngram \<Rightarrow> MapNgrams \<Rightarrow> MapNgrams" where
  "tally len_min w counts_seq =
     (if length w \<ge> len_min then increment w counts_seq else counts_seq)"

text \<open>A text that ends with the boundary token, as every text does that \<open>counts\<close> scans.\<close>

definition padded :: "Text \<Rightarrow> bool" where
  "padded text \<longleftrightarrow> text \<noteq> [] \<and> last text = 0"

text \<open>
  The number of set bits of \<open>b\<close>, and the four estimates as the specification writes
  them, for a contingency vector \<open>C\<close> and \<open>n\<close> tokens: formulas over the real
  numbers.
\<close>

definition popcount :: "nat \<Rightarrow> nat" where
  "popcount b = card {i. bit b i}"

definition sigma_uni_formula :: "real list \<Rightarrow> nat \<Rightarrow> real" where
  "sigma_uni_formula C n =
     sqrt ((real n - 1)\<^sup>2 / C ! 0 + (\<Sum>b<n. 1 / C ! (2 ^ b)) + 1 / C ! (2 ^ n - 1))"

definition lambda_uni_formula :: "real list \<Rightarrow> nat \<Rightarrow> real" where
  "lambda_uni_formula C n =
     (real n - 1) * ln (C ! 0) - (\<Sum>b<n. ln (C ! (2 ^ b))) + ln (C ! (2 ^ n - 1))"

definition sigma_all_formula :: "real list \<Rightarrow> nat \<Rightarrow> real" where
  "sigma_all_formula C n = sqrt (\<Sum>b<2 ^ n. 1 / C ! b)"

definition lambda_all_formula :: "real list \<Rightarrow> nat \<Rightarrow> real" where
  "lambda_all_formula C n = (\<Sum>b<2 ^ n. (- 1) ^ (n - popcount b) * ln (C ! b))"

text \<open>
  The same four formulas evaluated in doubles, in an arithmetic \<open>A\<close>: every operation
  is rounded, and the terms of a sum are added one by one from left to right, those of
  \<open>\<Sum>b\<close> in the order of \<open>b\<close>.
\<close>

definition sigma_uni_rounded :: "arithmetic \<Rightarrow> real list \<Rightarrow> nat \<Rightarrow> double" where
  "sigma_uni_rounded A C n =
     dsqrt A
       (dadd A
          (foldl (\<lambda>s b. dadd A s (ddiv A (Finite 1) (C ! (2 ^ b))))
             (dadd A (Finite 0) (ddiv A (dpow A (of_size_t A (n - 1)) 2) (C ! 0)))
             [0..<n])
          (ddiv A (Finite 1) (C ! (2 ^ n - 1))))"

definition lambda_uni_rounded :: "arithmetic \<Rightarrow> real list \<Rightarrow> nat \<Rightarrow> double" where
  "lambda_uni_rounded A C n =
     dadd A
       (foldl (\<lambda>l b. dsub A l (dlog A (C ! (2 ^ b))))
          (dadd A (Finite 0) (dmul A (dlog A (C ! 0)) (of_size_t A (n - 1))))
          [0..<n])
       (dlog A (C ! (2 ^ n - 1)))"

definition sigma_all_rounded :: "arithmetic \<Rightarrow> real list \<Rightarrow> nat \<Rightarrow> double" where
  "sigma_all_rounded A C n =
     dsqrt A (foldl (\<lambda>s b. dadd A s (ddiv A (Finite 1) (C ! b))) (Finite 0) [0..<2 ^ n])"

definition lambda_all_rounded :: "arithmetic \<Rightarrow> real list \<Rightarrow> nat \<Rightarrow> double" where
  "lambda_all_rounded A C n =
     foldl (\<lambda>l b. dadd A l (dmul A (Finite ((- 1) ^ (n - popcount b))) (dlog A (C ! b))))
       (Finite 0) [0..<2 ^ n]"

text \<open>
  Two arithmetics. The first rounds nothing and has no largest number. The second
  rounds nothing either, and it overflows: an exact result of magnitude \<open>2 ^ 1024\<close>
  or more is not finite, as in IEEE binary64, whose finite numbers are all smaller. The
  second agrees with IEEE binary64 on every operation whose exact result is a binary64
  number or has a magnitude of at least \<open>2 ^ 1024\<close>.
\<close>

definition exact_arithmetic :: arithmetic where
  "exact_arithmetic = \<lparr>round_op = Finite, round_pow = Finite, round_log = Finite\<rparr>"

definition range_limited :: "real \<Rightarrow> double" where
  "range_limited x = (if \<bar>x\<bar> < 2 ^ 1024 then Finite x else NotFinite)"

definition overflow_arithmetic :: arithmetic where
  "overflow_arithmetic =
     \<lparr>round_op = range_limited, round_pow = range_limited, round_log = range_limited\<rparr>"

text \<open>
  What the properties of finiteness below ask of an arithmetic. A number \<open>B\<close> is a
  \<open>binary64_bound\<close> if it is \<open>m * 2 ^ e\<close> with \<open>m \<le> 2 ^ 53\<close> and \<open>e \<le> 970\<close>;
  every such number is a finite binary64 number. A rounding is bounded if it carries no
  result across such a number, nor across zero: where the exact result lies between
  \<open>-B\<close> and \<open>B\<close>, the double returned is finite and lies between \<open>-B\<close> and
  \<open>B\<close>, and it is not negative where the exact result is not. Rounding to nearest
  is bounded, as is every rounding that returns one of the two doubles next to the exact
  result. Of the functions of the C library less is asked: the double returned may be
  as far from the exact result as \<open>B\<close> is from zero.
\<close>

definition binary64_bound :: "real \<Rightarrow> bool" where
  "binary64_bound B \<longleftrightarrow> (\<exists>m e. B = real m * 2 ^ e \<and> m \<le> 2 ^ 53 \<and> e \<le> (970::nat))"

definition bounded_rounding :: "(real \<Rightarrow> double) \<Rightarrow> bool" where
  "bounded_rounding f \<longleftrightarrow>
     (\<forall>x B. binary64_bound B \<and> \<bar>x\<bar> \<le> B \<longrightarrow>
        (\<exists>r. f x = Finite r \<and> \<bar>r\<bar> \<le> B \<and> (0 \<le> x \<longrightarrow> 0 \<le> r)))"

definition library_rounding :: "(real \<Rightarrow> double) \<Rightarrow> bool" where
  "library_rounding f \<longleftrightarrow>
     (\<forall>x B. binary64_bound B \<and> \<bar>x\<bar> \<le> B \<longrightarrow>
        (\<exists>r. f x = Finite r \<and> \<bar>r\<bar> \<le> 2 * B \<and> (0 \<le> x \<longrightarrow> 0 \<le> r)))"

definition ieee_like :: "arithmetic \<Rightarrow> bool" where
  "ieee_like A \<longleftrightarrow>
     bounded_rounding (round_op A) \<and> library_rounding (round_pow A)
     \<and> library_rounding (round_log A)"




section \<open>Properties of the bit comparator\<close>

lemma bitmask_from_step:
  "i < length a \<Longrightarrow> i < length b \<Longrightarrow>
   bitmask_from i a b = (if a ! i = b ! i then 2 ^ i else 0) + bitmask_from (Suc i) a b"
  by (simp add: bitmask_from_def upt_conv_Cons)

lemma bitmask_from_done:
  "\<not> (i < length a \<and> i < length b) \<Longrightarrow> bitmask_from i a b = 0"
  by (auto simp: bitmask_from_def)

lemma pow2_sum_bound:
  "i \<le> m \<Longrightarrow> (\<Sum>k\<leftarrow>[i..<m]. if P k then 2 ^ k else 0) + 2 ^ i \<le> (2::nat) ^ m"
  by (induction m) (auto simp: le_Suc_eq)

lemma bitmask_from_bound:
  "bitmask_from i a b < 2 ^ min (length a) (length b)"
proof (cases "i \<le> min (length a) (length b)")
  case True
  from pow2_sum_bound [OF True, of "\<lambda>k. a ! k = b ! k"]
  have "bitmask_from i a b + 2 ^ i \<le> 2 ^ min (length a) (length b)"
    by (simp add: bitmask_from_def)
  moreover have "(0::nat) < 2 ^ i" by simp
  ultimately show ?thesis by linarith
next
  case False
  then show ?thesis by (auto simp: bitmask_from_def)
qed

lemma bitmask_bound: "bitmask a b < 2 ^ min (length a) (length b)"
  by (simp add: bitmask_def bitmask_from_bound)

text \<open>
  The loop from position \<open>i\<close> with the accumulator \<open>bitv\<close>: it adds the bits of the
  remaining positions, and it leaves the range of int exactly when that sum does.
\<close>

lemma match_bit2_loop_char:
  "0 \<le> bitv \<Longrightarrow> bitv \<le> 2 ^ 31 - 1 \<Longrightarrow>
   match_bit2_loop a b i bitv =
     (if bitv + int (bitmask_from i a b) \<le> 2 ^ 31 - 1
      then Some (bitv + int (bitmask_from i a b)) else None)"
proof (induction a b i bitv rule: match_bit2_loop.induct)
  case (1 tokens1 tokens2 i bitv)
  show ?case
  proof (cases "i < length tokens1 \<and> i < length tokens2")
    case False
    then show ?thesis
      using "1.prems" by (subst match_bit2_loop.simps) (auto simp: bitmask_from_done)
  next
    case inr: True
    show ?thesis
    proof (cases "tokens1 ! i = tokens2 ! i")
      case True
      show ?thesis
      proof (cases "bitv + 2 ^ i \<le> 2 ^ 31 - 1")
        case fits: True
        have nonneg: "0 \<le> bitv + 2 ^ i" using "1.prems" by simp
        then have "- (2 ^ 31) \<le> bitv + 2 ^ i" by (rule order_trans [rotated]) simp
        with fits have ap: "add_pow2 bitv i = Some (bitv + 2 ^ i)"
          by (simp add: add_pow2_def Let_def)
        from "1.IH"(1) [OF inr True ap nonneg fits] inr True ap show ?thesis
          by (subst match_bit2_loop.simps) (simp add: bitmask_from_step add.assoc)
      next
        case False
        then have ap: "add_pow2 bitv i = None"
          by (simp add: add_pow2_def Let_def)
        from False inr True ap show ?thesis
          by (subst match_bit2_loop.simps) (simp add: bitmask_from_step)
      qed
    next
      case False
      with inr "1.IH"(2) "1.prems" show ?thesis
        by (subst match_bit2_loop.simps) (simp add: bitmask_from_step)
    qed
  qed
qed

lemma match_bit2_char:
  "match_bit2 a b = (if bitmask a b \<le> 2 ^ 31 - 1 then Some (int (bitmask a b)) else None)"
proof -
  have "int (bitmask a b) \<le> 2 ^ 31 - 1 \<longleftrightarrow> bitmask a b \<le> 2 ^ 31 - 1"
    by auto
  then show ?thesis
    by (simp add: match_bit2_def bitmask_def match_bit2_loop_char)
qed

lemma bitmask_sym: "bitmask a b = bitmask b a"
  unfolding bitmask_def bitmask_from_def
  by (rule arg_cong [where f = sum_list]) (auto simp: min.commute)

lemma bitmask_set_sum:
  "bitmask a b = (\<Sum>i | i < length a \<and> i < length b \<and> a ! i = b ! i. 2 ^ i)"
proof -
  have "bitmask a b =
      (\<Sum>i\<in>{0..<min (length a) (length b)}. if a ! i = b ! i then 2 ^ i else 0)"
    by (simp add: bitmask_def bitmask_from_def interv_sum_list_conv_sum_set_nat)
  also have "\<dots> = (\<Sum>i\<in>{i \<in> {0..<min (length a) (length b)}. a ! i = b ! i}. 2 ^ i)"
    by (rule sum.inter_filter [symmetric]) simp
  also have "{i \<in> {0..<min (length a) (length b)}. a ! i = b ! i} =
      {i. i < length a \<and> i < length b \<and> a ! i = b ! i}"
    by auto
  finally show ?thesis .
qed

lemma match_bit2_short:
  assumes "length a \<le> 31 \<or> length b \<le> 31"
  shows "match_bit2 a b = Some (int (bitmask a b))"
proof -
  from assms have "min (length a) (length b) \<le> 31" by auto
  then have "(2::nat) ^ min (length a) (length b) \<le> 2 ^ 31"
    by (rule power_increasing) simp
  with bitmask_bound [of a b] have "bitmask a b \<le> 2 ^ 31 - 1" by simp
  then show ?thesis by (simp add: match_bit2_char)
qed

text \<open>
  C5, as the code has it. The result of \<open>match_bit2\<close> is a 32-bit int. Whenever the sum
  of \<open>2 ^ i\<close> over the positions \<open>i\<close> below both lengths that hold equal tokens is at
  most \<open>2 ^ 31 - 1\<close>, and so whenever one of the two sequences has at most 31 tokens,
  \<open>match_bit2\<close> returns exactly that sum (bit 0 is the first position, and positions
  beyond the shorter length contribute nothing). Otherwise the conversion of the sum to
  int is undefined.
\<close>

theorem match_bit2_bitmask:
  "match_bit2 a b = (if bitmask a b \<le> 2 ^ 31 - 1 then Some (int (bitmask a b)) else None)
   \<and> (length a \<le> 31 \<or> length b \<le> 31 \<longrightarrow> match_bit2 a b = Some (int (bitmask a b)))
   \<and> bitmask a b = (\<Sum>i | i < length a \<and> i < length b \<and> a ! i = b ! i. 2 ^ i)"
  using match_bit2_char [of a b] match_bit2_short [of a b] bitmask_set_sum [of a b]
  by blast

theorem match_bit2_bitmask_witness:
  "(length [1, 2, 3 :: token] \<le> 31 \<or> length [1, 5, 3, 7 :: token] \<le> 31)
   \<and> match_bit2 [1, 2, 3] [1, 5, 3, 7] = Some 5
   \<and> bitmask [1, 2, 3] [1, 5, 3, 7] = 5"
proof -
  have b: "bitmask [1, 2, 3] [1, 5, 3, 7] = 5"
    by (simp add: bitmask_def bitmask_from_def upt_conv_Cons)
  from match_bit2_bitmask [of "[1, 2, 3]" "[1, 5, 3, 7]"] b show ?thesis
    by simp
qed

text \<open>
  C5 as stated fails for two equal sequences of 32 tokens: the sum is \<open>2 ^ 32 - 1\<close>,
  which no int holds, and the conversion in the last step of the loop is undefined.
\<close>

theorem match_bit2_overflow_counterexample:
  "match_bit2 (replicate 32 7) (replicate 32 7) = None
   \<and> bitmask (replicate 32 7) (replicate 32 7) = 4294967295"
proof -
  have "match_bit2 (replicate 32 7) (replicate 32 7) = None"
    by code_simp
  moreover have "bitmask (replicate 32 7) (replicate 32 7) = 4294967295"
    by (simp add: bitmask_def bitmask_from_def upt_conv_Cons)
  ultimately show ?thesis by simp
qed

text \<open>
  C10: the bitmask is symmetric in its two arguments, so comparing candidate \<open>i\<close> with
  candidate \<open>j\<close> gives the same bucket as comparing \<open>j\<close> with \<open>i\<close>.
\<close>

theorem match_bit2_symmetric:
  "match_bit2 a b = match_bit2 b a"
  by (simp add: match_bit2_char bitmask_sym [of a b])

section \<open>Properties of the sequence counter\<close>

lemma counts_inner_run:
  "i \<le> j \<Longrightarrow> 0 \<in> set (drop j text) \<Longrightarrow>
   counts_inner text len_min len_max nested i j tokens_seq counts_seq =
     (let w = takeWhile (\<lambda>t. t \<noteq> 0) (take (len_max - (j - i)) (drop j text))
      in (if \<not> nested then j + length w else i, [],
          tally len_min (tokens_seq @ w) counts_seq))"
proof (induction "text" len_min len_max nested i j tokens_seq counts_seq
    rule: counts_inner.induct)
  case (1 tx len_min len_max nested i j tokens_seq counts_seq)
  from "1.prems"(2) have jlt: "j < length tx"
    by (cases "j < length tx") auto
  then have dr: "drop j tx = tx ! j # drop (Suc j) tx"
    by (simp add: Cons_nth_drop_Suc)
  show ?case
  proof (cases "tx ! j = 0 \<or> len_max \<le> j - i")
    case True
    then have "takeWhile (\<lambda>t. t \<noteq> 0) (take (len_max - (j - i)) (drop j tx)) = []"
      by (auto simp: dr take_Cons')
    with True jlt show ?thesis
      by (subst counts_inner.simps) (auto simp: Let_def tally_def)
  next
    case False
    then have nz: "tx ! j \<noteq> 0" and lt: "j - i < len_max" by auto
    from lt "1.prems"(1) have eq: "len_max - (j - i) = Suc (len_max - (Suc j - i))"
      by linarith
    from nz "1.prems"(2) have z: "0 \<in> set (drop (j + 1) tx)"
      by (simp add: dr)
    have "i \<le> j + 1" using "1.prems"(1) by simp
    from "1.IH" [OF jlt refl refl _ this z] False
    have ih: "counts_inner tx len_min len_max nested i (Suc j) (tokens_seq @ [tx ! j]) counts_seq =
      (let w = takeWhile (\<lambda>t. t \<noteq> 0) (take (len_max - (Suc j - i)) (drop (Suc j) tx))
       in (if \<not> nested then Suc j + length w else i, [],
           tally len_min ((tokens_seq @ [tx ! j]) @ w) counts_seq))"
      by (simp add: Let_def)
    have w: "takeWhile (\<lambda>t. t \<noteq> 0) (take (len_max - (j - i)) (drop j tx)) =
        tx ! j # takeWhile (\<lambda>t. t \<noteq> 0) (take (len_max - (Suc j - i)) (drop (Suc j) tx))"
      using nz by (simp add: eq dr)
    from False jlt show ?thesis
      by (subst counts_inner.simps) (simp add: Let_def ih w)
  qed
qed

lemma padded_zero: "padded tx \<Longrightarrow> i < length tx \<Longrightarrow> 0 \<in> set (drop i tx)"
proof -
  assume p: "padded tx" and i: "i < length tx"
  then have "drop i tx \<noteq> []" by simp
  then have "last (drop i tx) \<in> set (drop i tx)" by (rule last_in_set)
  with p i show ?thesis by (simp add: padded_def)
qed

lemma counts_outer_done:
  "\<not> i < length tx \<Longrightarrow> counts_outer tx len_min len_max nested i tokens_seq counts_seq = counts_seq"
  by (subst counts_outer.simps) simp

lemma counts_outer_step:
  assumes "padded tx" "i < length tx"
  shows "counts_outer tx len_min len_max nested i [] counts_seq =
    counts_outer tx len_min len_max nested
      (Suc (if nested then i else i + length (run_from tx len_max i))) []
      (tally len_min (run_from tx len_max i) counts_seq)"
proof -
  from assms have "0 \<in> set (drop i tx)" by (rule padded_zero)
  then have "counts_inner tx len_min len_max nested i i [] counts_seq =
      (if \<not> nested then i + length (run_from tx len_max i) else i, [],
       tally len_min (run_from tx len_max i) counts_seq)"
    by (simp add: counts_inner_run Let_def run_from_def)
  with assms(2) show ?thesis
    by (subst counts_outer.simps) auto
qed

lemma counts_outer_rule:
  assumes "padded tx" and "P counts_seq"
    and "\<And>k t. k < length tx \<Longrightarrow> P t \<Longrightarrow> P (tally len_min (run_from tx len_max k) t)"
  shows "P (counts_outer tx len_min len_max nested i [] counts_seq)"
  using assms(2)
proof (induction "length tx - i" arbitrary: i counts_seq rule: less_induct)
  case less
  show ?case
  proof (cases "i < length tx")
    case True
    let ?i' = "Suc (if nested then i else i + length (run_from tx len_max i))"
    have "length tx - ?i' < length tx - i" using True by auto
    moreover have "P (tally len_min (run_from tx len_max i) counts_seq)"
      using True less.prems by (rule assms(3))
    ultimately have "P (counts_outer tx len_min len_max nested ?i' []
        (tally len_min (run_from tx len_max i) counts_seq))"
      by (rule less.hyps)
    then show ?thesis
      by (simp only: counts_outer_step [OF assms(1) True])
  next
    case False
    with less.prems show ?thesis by (simp add: counts_outer_done)
  qed
qed

lemma counts_outer_nested:
  assumes "padded tx"
  shows "counts_outer tx len_min len_max True i [] counts_seq =
    fold (\<lambda>k. tally len_min (run_from tx len_max k)) [i..<length tx] counts_seq"
proof (induction "length tx - i" arbitrary: i counts_seq rule: less_induct)
  case less
  show ?case
  proof (cases "i < length tx")
    case True
    have "length tx - Suc i < length tx - i" using True by auto
    from less.hyps [OF this] True show ?thesis
      by (simp add: counts_outer_step [OF assms True] upt_conv_Cons)
  next
    case False
    then show ?thesis by (simp add: counts_outer_done)
  qed
qed

lemma takeWhile_append_zeros:
  "set ys \<subseteq> {0} \<Longrightarrow>
   takeWhile (\<lambda>t. t \<noteq> (0::token)) (xs @ ys) = takeWhile (\<lambda>t. t \<noteq> 0) xs"
proof (induction xs)
  case Nil
  then show ?case by (cases ys) auto
next
  case (Cons x xs)
  then show ?case by simp
qed

lemma run_from_padding:
  "run_from (tx @ [0]) len_max i = run_from tx len_max i"
proof -
  have "set (take (len_max - length (drop i tx)) (drop (i - length tx) [0::token])) \<subseteq> {0}"
  proof
    fix x
    assume "x \<in> set (take (len_max - length (drop i tx)) (drop (i - length tx) [0::token]))"
    then have "x \<in> set [0::token]"
      by (blast dest: in_set_takeD in_set_dropD)
    then show "x \<in> {0}" by simp
  qed
  then have "takeWhile (\<lambda>t. t \<noteq> 0)
      (take len_max (drop i tx) @ take (len_max - length (drop i tx)) (drop (i - length tx) [0]))
      = takeWhile (\<lambda>t. t \<noteq> 0) (take len_max (drop i tx))"
    by (rule takeWhile_append_zeros)
  then show ?thesis
    by (simp add: run_from_def)
qed

lemma run_from_length: "length (run_from tx len_max i) \<le> len_max"
proof -
  have "length (run_from tx len_max i) \<le> length (take len_max (drop i tx))"
    unfolding run_from_def by (rule length_takeWhile_le)
  then show ?thesis by simp
qed

lemma run_from_no_boundary: "0 \<notin> set (run_from tx len_max i)"
  by (auto simp: run_from_def dest: set_takeWhileD)

lemma run_from_slice:
  "run_from tx len_max i = take (length (run_from tx len_max i)) (drop i tx)"
proof -
  let ?xs = "take len_max (drop i tx)"
  have "takeWhile (\<lambda>t. t \<noteq> 0) ?xs = take (length (takeWhile (\<lambda>t. t \<noteq> 0) ?xs)) ?xs"
    by (rule takeWhile_eq_take)
  also have "\<dots> = take (length (takeWhile (\<lambda>t. t \<noteq> 0) ?xs)) (drop i tx)"
    using run_from_length [of tx len_max i] by (simp add: run_from_def min_def)
  finally show ?thesis by (simp add: run_from_def)
qed

lemma run_from_within: "i + length (run_from tx len_max i) \<le> max i (length tx)"
proof -
  have "length (run_from tx len_max i) \<le> length (take len_max (drop i tx))"
    unfolding run_from_def by (rule length_takeWhile_le)
  then show ?thesis by auto
qed

lemma map_of_increment:
  "map_of (increment k m) k' =
     (if k' = k then Some (case map_of m k of None \<Rightarrow> 1 | Some c \<Rightarrow> c + 1) else map_of m k')"
  by (induction m) auto

lemma increment_not_Nil: "increment k m \<noteq> []"
  by (cases m) (auto split: if_splits)

lemma run_from_good:
  "0 \<notin> set (run_from tx len_max k) \<and>
   (\<exists>i. i + length (run_from tx len_max k) \<le> length tx \<and>
        run_from tx len_max k = take (length (run_from tx len_max k)) (drop i tx))"
proof (cases "k \<le> length tx")
  case True
  with run_from_within [of k tx len_max]
  have "k + length (run_from tx len_max k) \<le> length tx" by (simp add: max_def)
  with run_from_slice [of tx len_max k] run_from_no_boundary [of tx len_max k]
  show ?thesis by blast
next
  case False
  then have "run_from tx len_max k = []" by (simp add: run_from_def)
  then show ?thesis by auto
qed

lemma counts_padded: "padded (tx @ [0])"
  by (simp add: padded_def)

text \<open>
  C9: boundary respect. A key whose count \<open>counts\<close> changes (the keys it increments, as
  a count never wraps) holds no boundary token 0 and is a block of consecutive tokens of
  the text: the \<open>length key\<close> tokens that start at some position \<open>i\<close>. So no counted
  sequence spans a boundary token of the text. This holds for every text, table and
  parameter setting.
\<close>

theorem counts_boundary_respect:
  assumes "map_of (counts text counts_seq len_min len_max nested) key \<noteq> map_of counts_seq key"
  shows "0 \<notin> set key \<and>
    (\<exists>i. i + length key \<le> length text \<and> key = take (length key) (drop i text))"
proof -
  let ?good = "\<lambda>key. 0 \<notin> set key \<and>
    (\<exists>i. i + length key \<le> length text \<and> key = take (length key) (drop i text))"
  let ?P = "\<lambda>t. \<forall>key. map_of t key \<noteq> map_of counts_seq key \<longrightarrow> ?good key"
  have step: "?P (tally len_min (run_from (text @ [0]) len_max k) t)" if "?P t" for k t
  proof (intro allI impI)
    fix key
    assume ch: "map_of (tally len_min (run_from (text @ [0]) len_max k) t) key \<noteq> map_of counts_seq key"
    show "?good key"
    proof (cases "key = run_from (text @ [0]) len_max k")
      case True
      then have "key = run_from text len_max k" by (simp add: run_from_padding)
      then show ?thesis using run_from_good [of "text" len_max k] by simp
    next
      case False
      then have "map_of (tally len_min (run_from (text @ [0]) len_max k) t) key = map_of t key"
        by (simp add: tally_def map_of_increment)
      with ch that show ?thesis by simp
    qed
  qed
  have "?P (counts_outer (text @ [0]) len_min len_max nested 0 [] counts_seq)"
    by (rule counts_outer_rule [where P = ?P, OF counts_padded]) (simp, rule step)
  with assms show ?thesis
    by (cases "length text = 0") (simp_all add: counts_def)
qed

text \<open>The key \<open>[1, 2]\<close> of the text \<open>[1, 2, 0, 3]\<close> is counted, and the theorem applies to it.\<close>

theorem counts_boundary_respect_witness:
  "map_of (counts [1, 2, 0, 3] [] 1 2 True) [1, 2] \<noteq> map_of ([] :: MapNgrams) [1, 2]
   \<and> 0 \<notin> set [1, 2 :: token]
   \<and> (\<exists>i. i + length [1, 2 :: token] \<le> length [1, 2, 0, 3 :: token]
          \<and> [1, 2 :: token] = take (length [1, 2 :: token]) (drop i [1, 2, 0, 3]))"
proof -
  have h: "map_of (counts [1, 2, 0, 3] [] 1 2 True) [1, 2] \<noteq> map_of ([] :: MapNgrams) [1, 2]"
    by code_simp
  from h counts_boundary_respect [OF h] show ?thesis
    by (rule conjI)
qed

lemma counts_nested:
  "counts text counts_seq len_min len_max True =
     (if text = [] then counts_seq
      else fold (\<lambda>i. tally len_min (run_from text len_max i)) [0..<Suc (length text)] counts_seq)"
  by (simp add: counts_def counts_outer_nested [OF counts_padded] run_from_padding)

text \<open>
  C2, as the code has it. With \<open>nested\<close> set, every position of the padded text is a
  start, in order, and a start counts one window only: the longest run of tokens other
  than 0 that begins there, cut after \<open>len_max\<close> tokens, and only if it has at least
  \<open>len_min\<close> tokens. Shorter windows with the same start are not counted. The text
  \<open>[1, 2, 3, 0]\<close> with \<open>len_min = 2\<close> and \<open>len_max = 3\<close> gives the table
  \<open>{[1, 2, 3]: 1, [2, 3]: 1}\<close>.
\<close>

theorem counts_nested_windows:
  "counts text counts_seq len_min len_max True =
     (if text = [] then counts_seq
      else fold (\<lambda>i. tally len_min (run_from text len_max i)) [0..<Suc (length text)] counts_seq)
   \<and> counts [1, 2, 3, 0] [] 2 3 True = [([1, 2, 3], 1), ([2, 3], 1)]"
proof -
  have c: "counts [1, 2, 3, 0] [] 2 3 True = [([1, 2, 3], 1), ([2, 3], 1)]"
    by code_simp
  from counts_nested [of "text" counts_seq len_min len_max] c show ?thesis
    by (rule conjI)
qed

text \<open>
  C2 as stated fails on its own example: the window \<open>[1, 2]\<close> is not counted.
\<close>

theorem counts_nested_counterexample:
  "map_of (counts [1, 2, 3, 0] [] 2 3 True) [1, 2] = None"
  by code_simp

lemma counts_outer_unnested:
  assumes "padded tx" "i < length tx"
  shows "\<exists>i'. i + length (run_from tx len_max i) \<le> i' \<and>
     counts_outer tx len_min len_max False i [] counts_seq =
     counts_outer tx len_min len_max False i' []
       (tally len_min (run_from tx len_max i) counts_seq)"
  using counts_outer_step [OF assms, of len_min len_max False counts_seq]
  by (intro exI [of _ "Suc (i + length (run_from tx len_max i))"]) simp

text \<open>
  C1, as the code has it. Without \<open>nested\<close>, after the run that starts at \<open>i\<close> is
  closed and counted, the outer scan goes on from a position beyond the last token of
  that run, so no position inside a closed run starts a run of its own. The two texts
  \<open>[1, 2, 3, 0]\<close> and \<open>[1, 2, 0]\<close> with \<open>len_min = len_max = 2\<close> give the table
  \<open>{[1, 2]: 2}\<close>.
\<close>

theorem counts_unnested_restart:
  "(padded tx \<and> i < length tx \<longrightarrow>
      (\<exists>i'. i + length (run_from tx len_max i) \<le> i' \<and>
         counts_outer tx len_min len_max False i [] counts_seq =
         counts_outer tx len_min len_max False i' []
           (tally len_min (run_from tx len_max i) counts_seq)))
   \<and> counts_texts [[1, 2, 3, 0], [1, 2, 0]] [] 2 2 False = [([1, 2], 2)]"
proof -
  have "counts_texts [[1, 2, 3, 0], [1, 2, 0]] [] 2 2 False = [([1, 2], 2)]"
    by code_simp
  then show ?thesis
    using counts_outer_unnested [of tx i len_max len_min counts_seq] by blast
qed

theorem counts_unnested_restart_witness:
  "(padded [1, 2, 3, 0] \<and> 0 < length [1, 2, 3, 0 :: token])
   \<and> (\<exists>i'. 0 + length (run_from [1, 2, 3, 0] 2 0) \<le> i' \<and>
         counts_outer [1, 2, 3, 0] 2 2 False 0 [] [] =
         counts_outer [1, 2, 3, 0] 2 2 False i' [] (tally 2 (run_from [1, 2, 3, 0] 2 0) []))"
proof -
  have p: "padded [1, 2, 3, 0] \<and> 0 < length [1, 2, 3, 0 :: token]"
    by (simp add: padded_def)
  from counts_unnested_restart [of "[1, 2, 3, 0]" 0 2 2 "[]"] p show ?thesis
    by blast
qed

text \<open>
  C1 as stated fails on its own example: \<open>[2, 3]\<close> is not counted. Nor does the scan
  restart at the position just after a run that \<open>len_max\<close> closed: in \<open>[1, 2, 3, 4]\<close>
  the run \<open>[3, 4]\<close> is not counted.
\<close>

theorem counts_unnested_counterexample:
  "counts_texts [[1, 2, 3, 0], [1, 2, 0]] [] 2 2 False = [([1, 2], 2)]
   \<and> counts [1, 2, 3, 4] [] 2 2 False = [([1, 2], 1)]"
  by code_simp

lemma counts_range_empty:
  assumes "len_max < len_min"
  shows "counts text counts_seq len_min len_max nested = counts_seq"
proof -
  have "tally len_min (run_from tx len_max k) t = t" for tx k t
    using run_from_length [of tx len_max k] assms by (simp add: tally_def)
  then have "counts_outer (text @ [0]) len_min len_max nested 0 [] counts_seq = counts_seq"
    by (intro counts_outer_rule [where P = "\<lambda>t. t = counts_seq", OF counts_padded]) simp_all
  then show ?thesis by (simp add: counts_def)
qed

lemma counts_texts_range_empty:
  "len_max < len_min \<Longrightarrow> counts_texts texts counts_seq len_min len_max nested = counts_seq"
  by (induction texts arbitrary: counts_seq) (simp_all add: counts_range_empty)

lemma tally_not_Nil: "t \<noteq> [] \<Longrightarrow> tally len_min w t \<noteq> []"
  by (simp add: tally_def increment_not_Nil)

lemma counts_not_Nil:
  assumes "counts_seq \<noteq> []"
  shows "counts text counts_seq len_min len_max nested \<noteq> []"
proof -
  have "counts_outer (text @ [0]) len_min len_max nested 0 [] counts_seq \<noteq> []"
    by (rule counts_outer_rule [where P = "\<lambda>t. t \<noteq> []", OF counts_padded])
      (simp_all add: assms tally_not_Nil)
  with assms show ?thesis by (simp add: counts_def)
qed

lemma counts_zero_min:
  assumes "text \<noteq> []"
  shows "counts text counts_seq 0 len_max nested \<noteq> []"
proof -
  let ?tx = "text @ [0]"
  have p: "padded ?tx" by (rule counts_padded)
  have "tally 0 (run_from ?tx len_max 0) counts_seq \<noteq> []"
    by (simp add: tally_def increment_not_Nil)
  then have "counts_outer ?tx 0 len_max nested
      (Suc (if nested then 0 else 0 + length (run_from ?tx len_max 0))) []
      (tally 0 (run_from ?tx len_max 0) counts_seq) \<noteq> []"
    by (intro counts_outer_rule [where P = "\<lambda>t. t \<noteq> []", OF p]) (simp_all add: tally_not_Nil)
  then have "counts_outer ?tx 0 len_max nested 0 [] counts_seq \<noteq> []"
    by (subst counts_outer_step [OF p]) simp_all
  with assms show ?thesis by (simp add: counts_def)
qed

lemma counts_texts_not_Nil:
  "counts_seq \<noteq> [] \<Longrightarrow> counts_texts texts counts_seq len_min len_max nested \<noteq> []"
  by (induction texts arbitrary: counts_seq) (simp_all add: counts_not_Nil)

lemma counts_texts_zero_min:
  "\<exists>t\<in>set texts. t \<noteq> [] \<Longrightarrow> counts_texts texts counts_seq 0 len_max nested \<noteq> []"
proof (induction texts arbitrary: counts_seq)
  case Nil
  then show ?case by simp
next
  case (Cons t texts)
  show ?case
  proof (cases "t = []")
    case True
    with Cons show ?thesis by (simp add: counts_def)
  next
    case False
    then show ?thesis by (simp add: counts_texts_not_Nil counts_zero_min)
  qed
qed

section \<open>Properties of the statistic estimators\<close>

lemma bit_below: "bit (b::nat) i \<Longrightarrow> b < 2 ^ n \<Longrightarrow> i < n"
proof (rule ccontr)
  assume b: "bit b i" "b < 2 ^ n" and "\<not> i < n"
  then have "(2::nat) ^ n \<le> 2 ^ i" by (intro power_increasing) auto
  with b(2) have "b < 2 ^ i" by (rule less_le_trans)
  then have "b div 2 ^ i = 0" by (rule div_less)
  with b(1) show False by (simp add: bit_iff_odd)
qed

lemma finite_bits: "finite {i. bit (n::nat) i}"
proof -
  have "n < 2 ^ n" by (rule less_exp)
  then have "{i. bit n i} \<subseteq> {..<n}" using bit_below [of n _ n] by auto
  then show ?thesis by (rule finite_subset) simp
qed

lemma popcount_0: "popcount 0 = 0"
  by (simp add: popcount_def)

lemma popcount_rec: "n \<noteq> 0 \<Longrightarrow> popcount n = n mod 2 + popcount (n div 2)"
proof -
  have set_eq: "{i. bit n i} = (if odd n then {0} else {}) \<union> Suc ` {i. bit (n div 2) i}"
  proof (rule set_eqI)
    fix i
    show "i \<in> {i. bit n i} \<longleftrightarrow> i \<in> (if odd n then {0} else {}) \<union> Suc ` {i. bit (n div 2) i}"
      by (cases i) (auto simp: bit_0 bit_Suc)
  qed
  have fin: "finite (Suc ` {i. bit (n div 2) i})" by (intro finite_imageI finite_bits)
  have disj: "(if odd n then {0} else {}) \<inter> Suc ` {i. bit (n div 2) i} = {}" by auto
  have "card {i. bit n i} = card (if odd n then {0::nat} else {}) + card (Suc ` {i. bit (n div 2) i})"
    unfolding set_eq by (rule card_Un_disjoint) (use fin disj in auto)
  also have "card (Suc ` {i. bit (n div 2) i}) = card {i. bit (n div 2) i}"
    by (rule card_image) simp
  also have "card (if odd n then {0::nat} else {}) = n mod 2"
    by (auto simp: odd_iff_mod_2_eq_one)
  finally show ?thesis by (simp add: popcount_def)
qed

lemma bitCount_loop_popcount: "bitCount_loop n counter = counter + popcount n"
proof (induction n counter rule: bitCount_loop.induct)
  case (1 n counter)
  show ?case
  proof (cases "n = 0")
    case True
    then show ?thesis by (subst bitCount_loop.simps) (simp add: popcount_0)
  next
    case False
    with "1.IH" show ?thesis
      by (subst bitCount_loop.simps) (simp add: popcount_rec)
  qed
qed

lemma bitCount_popcount: "bitCount n = popcount n"
  by (simp add: bitCount_def bitCount_loop_popcount)

lemma popcount_le: "b < 2 ^ n \<Longrightarrow> popcount b \<le> n"
proof -
  assume b: "b < 2 ^ n"
  have "{i. bit b i} \<subseteq> {..<n}"
  proof
    fix i assume "i \<in> {i. bit b i}"
    then have "bit b i" by simp
    then show "i \<in> {..<n}" using b by (simp add: bit_below)
  qed
  then have "card {i. bit b i} \<le> card {..<n}" by (intro card_mono) auto
  then show ?thesis by (simp add: popcount_def)
qed

lemma vec_at_Some: "i < length xs \<Longrightarrow> vec_at xs i = Some (xs ! i)"
  by (simp add: vec_at_def)

lemma sigma_uni_loop_foldl:
  assumes "\<And>k. b \<le> k \<Longrightarrow> k < n \<Longrightarrow> 2 ^ k < length C"
  shows "sigma_uni_loop A C n b s =
    Some (foldl (\<lambda>s b. dadd A s (ddiv A (Finite 1) (C ! (2 ^ b)))) s [b..<n])"
  using assms
proof (induction "n - b" arbitrary: b s)
  case 0
  then show ?case by (subst sigma_uni_loop.simps) simp
next
  case (Suc d)
  then have lt: "b < n" by simp
  from Suc.prems [of b] lt have c: "2 ^ b < length C" by simp
  have "d = n - Suc b" using Suc.hyps(2) by simp
  then have "sigma_uni_loop A C n (Suc b) (dadd A s (ddiv A (Finite 1) (C ! (2 ^ b)))) =
      Some (foldl (\<lambda>s b. dadd A s (ddiv A (Finite 1) (C ! (2 ^ b))))
        (dadd A s (ddiv A (Finite 1) (C ! (2 ^ b)))) [Suc b..<n])"
    using Suc.prems by (intro Suc.hyps(1)) simp_all
  with lt c show ?case
    by (subst sigma_uni_loop.simps) (simp add: vec_at_Some upt_conv_Cons)
qed

lemma lambda_uni_loop_foldl:
  assumes "\<And>k. b \<le> k \<Longrightarrow> k < n \<Longrightarrow> 2 ^ k < length C"
  shows "lambda_uni_loop A C n b l =
    Some (foldl (\<lambda>l b. dsub A l (dlog A (C ! (2 ^ b)))) l [b..<n])"
  using assms
proof (induction "n - b" arbitrary: b l)
  case 0
  then show ?case by (subst lambda_uni_loop.simps) simp
next
  case (Suc d)
  then have lt: "b < n" by simp
  from Suc.prems [of b] lt have c: "2 ^ b < length C" by simp
  have "d = n - Suc b" using Suc.hyps(2) by simp
  then have "lambda_uni_loop A C n (Suc b) (dsub A l (dlog A (C ! (2 ^ b)))) =
      Some (foldl (\<lambda>l b. dsub A l (dlog A (C ! (2 ^ b))))
        (dsub A l (dlog A (C ! (2 ^ b)))) [Suc b..<n])"
    using Suc.prems by (intro Suc.hyps(1)) simp_all
  with lt c show ?case
    by (subst lambda_uni_loop.simps) (simp add: vec_at_Some upt_conv_Cons)
qed

lemma sigma_all_loop_foldl:
  "sigma_all_loop A C b s =
     foldl (\<lambda>s b. dadd A s (ddiv A (Finite 1) (C ! b))) s [b..<length C]"
proof (induction "length C - b" arbitrary: b s)
  case 0
  then show ?case by (subst sigma_all_loop.simps) simp
next
  case (Suc d)
  then have lt: "b < length C" by simp
  have "d = length C - Suc b" using Suc.hyps(2) by simp
  then have "sigma_all_loop A C (Suc b) (dadd A s (ddiv A (Finite 1) (C ! b))) =
      foldl (\<lambda>s b. dadd A s (ddiv A (Finite 1) (C ! b)))
        (dadd A s (ddiv A (Finite 1) (C ! b))) [Suc b..<length C]"
    by (rule Suc.hyps(1))
  with lt show ?case
    by (subst sigma_all_loop.simps) (simp add: upt_conv_Cons)
qed

lemma lambda_all_loop_foldl:
  "lambda_all_loop A C n b l =
     foldl (\<lambda>l b. dadd A l (dmul A (Finite (pow_minus1 n (bitCount b))) (dlog A (C ! b))))
       l [b..<length C]"
proof (induction "length C - b" arbitrary: b l)
  case 0
  then show ?case by (subst lambda_all_loop.simps) simp
next
  case (Suc d)
  then have lt: "b < length C" by simp
  have "d = length C - Suc b" using Suc.hyps(2) by simp
  then have "lambda_all_loop A C n (Suc b)
        (dadd A l (dmul A (Finite (pow_minus1 n (bitCount b))) (dlog A (C ! b)))) =
      foldl (\<lambda>l b. dadd A l (dmul A (Finite (pow_minus1 n (bitCount b))) (dlog A (C ! b))))
        (dadd A l (dmul A (Finite (pow_minus1 n (bitCount b))) (dlog A (C ! b))))
        [Suc b..<length C]"
    by (rule Suc.hyps(1))
  with lt show ?case
    by (subst lambda_all_loop.simps) (simp add: upt_conv_Cons)
qed

lemma foldl_cong_set:
  "(\<And>a x. x \<in> set xs \<Longrightarrow> f a x = g a x) \<Longrightarrow> foldl f a xs = foldl g a xs"
  by (induction xs arbitrary: a) simp_all

lemma sigma_uni_fold:
  assumes "length C = 2 ^ n"
  shows "sigma_uni A C n =
    Some (dsqrt A
       (dadd A
          (foldl (\<lambda>s b. dadd A s (ddiv A (Finite 1) (C ! (2 ^ b))))
             (dadd A (Finite 0) (ddiv A (dpow A (of_size_t A (size_t_sub n 1)) 2) (C ! 0)))
             [0..<n])
          (ddiv A (Finite 1) (C ! (2 ^ n - 1)))))"
proof -
  have ck: "2 ^ k < length C" if "k < n" for k
    using that assms by simp
  show ?thesis
    using assms by (simp add: sigma_uni_def vec_at_Some sigma_uni_loop_foldl ck)
qed

lemma lambda_uni_fold:
  assumes "length C = 2 ^ n"
  shows "lambda_uni A C n =
    Some (dadd A
       (foldl (\<lambda>l b. dsub A l (dlog A (C ! (2 ^ b))))
          (dadd A (Finite 0) (dmul A (dlog A (C ! 0)) (of_size_t A (size_t_sub n 1))))
          [0..<n])
       (dlog A (C ! (2 ^ n - 1))))"
proof -
  have ck: "2 ^ k < length C" if "k < n" for k
    using that assms by simp
  show ?thesis
    using assms by (simp add: lambda_uni_def vec_at_Some lambda_uni_loop_foldl ck)
qed

lemma lambda_all_fold:
  assumes "length C = 2 ^ n"
  shows "lambda_all A C n =
     foldl (\<lambda>l b. dadd A l (dmul A (Finite ((- 1) ^ (n - popcount b))) (dlog A (C ! b))))
       (Finite 0) [0..<2 ^ n]"
  unfolding lambda_all_def lambda_all_loop_foldl assms
  by (rule foldl_cong_set) (simp add: pow_minus1_def bitCount_popcount popcount_le)

lemma exact_simps:
  "round_op exact_arithmetic = Finite" "round_pow exact_arithmetic = Finite"
  "round_log exact_arithmetic = Finite"
  by (simp_all add: exact_arithmetic_def)

lemma exact_sigma_fold:
  assumes "\<forall>b\<in>set xs. g b \<noteq> 0"
  shows "foldl (\<lambda>s b. dadd exact_arithmetic s (ddiv exact_arithmetic (Finite 1) (g b)))
      (Finite s) xs = Finite (s + (\<Sum>b\<leftarrow>xs. 1 / g b))"
  using assms by (induction xs arbitrary: s) (simp_all add: exact_simps add.assoc)

lemma exact_lambda_uni_fold:
  assumes "\<forall>b\<in>set xs. 0 < g b"
  shows "foldl (\<lambda>l b. dsub exact_arithmetic l (dlog exact_arithmetic (g b)))
      (Finite l) xs = Finite (l - (\<Sum>b\<leftarrow>xs. ln (g b)))"
  using assms by (induction xs arbitrary: l) (simp_all add: exact_simps dlog_def)

lemma exact_lambda_all_fold:
  assumes "\<forall>b\<in>set xs. 0 < g b"
  shows "foldl (\<lambda>l b. dadd exact_arithmetic l
             (dmul exact_arithmetic (Finite (w b)) (dlog exact_arithmetic (g b))))
      (Finite l) xs = Finite (l + (\<Sum>b\<leftarrow>xs. w b * ln (g b)))"
  using assms by (induction xs arbitrary: l) (simp_all add: exact_simps dlog_def add.assoc)

lemma sum_list_upt: "(\<Sum>b\<leftarrow>[0..<n]. f b) = (\<Sum>b<n. f b)"
  by (simp add: interv_sum_list_conv_sum_set_nat atLeast0LessThan)

lemma sigma_uni_rounded_exact:
  assumes n: "1 \<le> n" and len: "length C = 2 ^ n" and pos: "\<forall>b<2 ^ n. 0 < C ! b"
  shows "sigma_uni_rounded exact_arithmetic C n = Finite (sigma_uni_formula C n)"
proof -
  let ?E = exact_arithmetic
  have c0: "0 < C ! 0" using pos by simp
  have cn: "0 < C ! (2 ^ n - 1)" using pos by simp
  have ck: "0 < C ! (2 ^ k)" if "k < n" for k
    using pos [rule_format, of "2 ^ k"] that by simp
  have n1: "real (n - Suc 0) = real n - 1" using n by (simp add: of_nat_diff)
  let ?s0 = "(real n - 1)\<^sup>2 / C ! 0"
  have init: "dadd ?E (Finite 0) (ddiv ?E (dpow ?E (of_size_t ?E (n - 1)) 2) (C ! 0)) = Finite ?s0"
    using c0 by (simp add: of_size_t_def exact_simps n1)
  have "\<forall>b\<in>set [0..<n]. C ! (2 ^ b) \<noteq> 0" using ck by fastforce
  then have fold: "foldl (\<lambda>s b. dadd ?E s (ddiv ?E (Finite 1) (C ! (2 ^ b))))
      (Finite ?s0) [0..<n] = Finite (?s0 + (\<Sum>b<n. 1 / C ! (2 ^ b)))"
    by (simp only: exact_sigma_fold sum_list_upt)
  have last: "ddiv ?E (Finite 1) (C ! (2 ^ n - 1)) = Finite (1 / C ! (2 ^ n - 1))"
    using cn by (simp add: exact_simps)
  have "0 \<le> ?s0" using c0 by simp
  moreover have "0 \<le> (\<Sum>b<n. 1 / C ! (2 ^ b))"
    by (rule sum_nonneg) (use ck in \<open>simp add: less_imp_le\<close>)
  moreover have "0 \<le> 1 / C ! (2 ^ n - 1)" using cn by simp
  ultimately have nn: "0 \<le> ?s0 + (\<Sum>b<n. 1 / C ! (2 ^ b)) + 1 / C ! (2 ^ n - 1)"
    by linarith
  show ?thesis
    unfolding sigma_uni_rounded_def init fold last
    using nn by (simp add: sigma_uni_formula_def exact_simps)
qed

lemma lambda_uni_rounded_exact:
  assumes n: "1 \<le> n" and len: "length C = 2 ^ n" and pos: "\<forall>b<2 ^ n. 0 < C ! b"
  shows "lambda_uni_rounded exact_arithmetic C n = Finite (lambda_uni_formula C n)"
proof -
  let ?E = exact_arithmetic
  have c0: "0 < C ! 0" using pos by simp
  have cn: "0 < C ! (2 ^ n - 1)" using pos by simp
  have ck: "0 < C ! (2 ^ k)" if "k < n" for k
    using pos [rule_format, of "2 ^ k"] that by simp
  have n1: "real (n - Suc 0) = real n - 1" using n by (simp add: of_nat_diff)
  let ?l0 = "ln (C ! 0) * (real n - 1)"
  have init: "dadd ?E (Finite 0) (dmul ?E (dlog ?E (C ! 0)) (of_size_t ?E (n - 1))) = Finite ?l0"
    using c0 by (simp add: of_size_t_def dlog_def exact_simps n1)
  have "\<forall>b\<in>set [0..<n]. 0 < C ! (2 ^ b)" using ck by simp
  then have fold: "foldl (\<lambda>l b. dsub ?E l (dlog ?E (C ! (2 ^ b))))
      (Finite ?l0) [0..<n] = Finite (?l0 - (\<Sum>b<n. ln (C ! (2 ^ b))))"
    by (simp only: exact_lambda_uni_fold sum_list_upt)
  have last: "dlog ?E (C ! (2 ^ n - 1)) = Finite (ln (C ! (2 ^ n - 1)))"
    using cn by (simp add: dlog_def exact_simps)
  show ?thesis
    unfolding lambda_uni_rounded_def init fold last
    by (simp add: lambda_uni_formula_def exact_simps mult.commute)
qed

lemma sigma_all_rounded_exact:
  assumes len: "length C = 2 ^ n" and pos: "\<forall>b<2 ^ n. 0 < C ! b"
  shows "sigma_all_rounded exact_arithmetic C n = Finite (sigma_all_formula C n)"
proof -
  let ?E = exact_arithmetic
  have "\<forall>b\<in>set [0..<2 ^ n]. C ! b \<noteq> 0" using pos by fastforce
  then have fold: "foldl (\<lambda>s b. dadd ?E s (ddiv ?E (Finite 1) (C ! b)))
      (Finite 0) [0..<2 ^ n] = Finite (0 + (\<Sum>b<2 ^ n. 1 / C ! b))"
    by (simp only: exact_sigma_fold sum_list_upt)
  have "0 \<le> (\<Sum>b<2 ^ n. 1 / C ! b)"
    by (rule sum_nonneg) (use pos in \<open>simp add: less_imp_le\<close>)
  then show ?thesis
    unfolding sigma_all_rounded_def fold
    by (simp add: sigma_all_formula_def exact_simps)
qed

lemma lambda_all_rounded_exact:
  assumes len: "length C = 2 ^ n" and pos: "\<forall>b<2 ^ n. 0 < C ! b"
  shows "lambda_all_rounded exact_arithmetic C n = Finite (lambda_all_formula C n)"
proof -
  let ?E = exact_arithmetic
  have "\<forall>b\<in>set [0..<2 ^ n]. 0 < C ! b" using pos by simp
  then have "foldl (\<lambda>l b. dadd ?E l
             (dmul ?E (Finite ((- 1) ^ (n - popcount b))) (dlog ?E (C ! b))))
      (Finite 0) [0..<2 ^ n] = Finite (0 + (\<Sum>b<2 ^ n. (- 1) ^ (n - popcount b) * ln (C ! b)))"
    by (simp only: exact_lambda_all_fold sum_list_upt)
  then show ?thesis
    unfolding lambda_all_rounded_def lambda_all_formula_def by simp
qed

text \<open>
  C4, as the code has it. For every \<open>n \<ge> 1\<close> and every contingency vector \<open>C\<close> of
  \<open>2 ^ n\<close> entries, in every arithmetic, each estimator returns its formula evaluated in
  doubles: every operation is rounded, and the terms of the sums are added one by one,
  for the unigram variant the term of \<open>C[0]\<close> first, then those of \<open>C[2 ^ b]\<close> in
  the order of \<open>b\<close>, then that of \<open>C[2 ^ n - 1]\<close>, for the variant over all
  subtuples those of \<open>C[b]\<close> in the order of \<open>b\<close>. In the arithmetic that rounds
  nothing, and for positive entries, the values returned are the real numbers
  \<open>sigma = sqrt ((n - 1)\<^sup>2 / C[0] + (\<Sum>b<n. 1 / C[2 ^ b]) + 1 / C[2 ^ n - 1])\<close> and
  \<open>lambda = (n - 1) * ln C[0] - (\<Sum>b<n. ln C[2 ^ b]) + ln C[2 ^ n - 1]\<close> of the
  unigram variant, and \<open>sigma = sqrt (\<Sum>b<2 ^ n. 1 / C[b])\<close> and
  \<open>lambda = (\<Sum>b<2 ^ n. (-1) ^ (n - popcount b) * ln C[b])\<close> of the variant over all
  subtuples.
\<close>

theorem estimators_formulas:
  assumes "1 \<le> n" and "length C = 2 ^ n"
  shows "sigma_uni A C n = Some (sigma_uni_rounded A C n)
    \<and> lambda_uni A C n = Some (lambda_uni_rounded A C n)
    \<and> sigma_all A C = sigma_all_rounded A C n
    \<and> lambda_all A C n = lambda_all_rounded A C n
    \<and> ((\<forall>b<2 ^ n. 0 < C ! b) \<longrightarrow>
         sigma_uni_rounded exact_arithmetic C n = Finite (sigma_uni_formula C n)
       \<and> lambda_uni_rounded exact_arithmetic C n = Finite (lambda_uni_formula C n)
       \<and> sigma_all_rounded exact_arithmetic C n = Finite (sigma_all_formula C n)
       \<and> lambda_all_rounded exact_arithmetic C n = Finite (lambda_all_formula C n))"
proof -
  from assms(1) have n1: "size_t_sub n 1 = n - 1"
    by (simp add: size_t_sub_def)
  have "sigma_uni A C n = Some (sigma_uni_rounded A C n)"
    using sigma_uni_fold [OF assms(2), of A] unfolding sigma_uni_rounded_def n1 .
  moreover have "lambda_uni A C n = Some (lambda_uni_rounded A C n)"
    using lambda_uni_fold [OF assms(2), of A] unfolding lambda_uni_rounded_def n1 .
  moreover have "sigma_all A C = sigma_all_rounded A C n"
    unfolding sigma_all_def sigma_all_rounded_def sigma_all_loop_foldl assms(2) ..
  moreover have "lambda_all A C n = lambda_all_rounded A C n"
    using lambda_all_fold [OF assms(2), of A] unfolding lambda_all_rounded_def .
  ultimately show ?thesis
    using sigma_uni_rounded_exact [OF assms] lambda_uni_rounded_exact [OF assms]
      sigma_all_rounded_exact [OF assms(2)] lambda_all_rounded_exact [OF assms(2)]
    by blast
qed

lemma popcount_1: "popcount (Suc 0) = 1"
  using popcount_rec [of 1] by (simp add: popcount_0)

theorem estimators_formulas_witness:
  "(1::nat) \<le> 1 \<and> length [1, 2 :: real] = 2 ^ 1
   \<and> (0 < [1, 2 :: real] ! 0 \<and> 0 < [1, 2 :: real] ! 1)
   \<and> sigma_uni exact_arithmetic [1, 2] 1 = Some (Finite 1)
   \<and> lambda_uni exact_arithmetic [1, 2] 1 = Some (Finite 0)
   \<and> sigma_all exact_arithmetic [1, 2] = Finite (sqrt (3 / 2))
   \<and> lambda_all exact_arithmetic [1, 2] 1 = Finite (ln 2)"
proof -
  have h1: "(1::nat) \<le> 1" by simp
  have h2: "length [1, 2 :: real] = 2 ^ 1" by simp
  have h3: "\<forall>b<2 ^ 1. 0 < [1, 2 :: real] ! b" by (simp add: nth_Cons' less_Suc_eq)
  have f1: "sigma_uni_formula [1, 2] 1 = 1"
    by (simp add: sigma_uni_formula_def)
  have f2: "lambda_uni_formula [1, 2] 1 = 0"
    by (simp add: lambda_uni_formula_def)
  have f3: "sigma_all_formula [1, 2] 1 = sqrt (3 / 2)"
    by (simp add: sigma_all_formula_def lessThan_Suc eval_nat_numeral)
  have f4: "lambda_all_formula [1, 2] 1 = ln 2"
    by (simp add: lambda_all_formula_def lessThan_Suc eval_nat_numeral popcount_0 popcount_1)
  from estimators_formulas [OF h1 h2, of exact_arithmetic] h3
  have "sigma_uni exact_arithmetic [1, 2] 1 = Some (Finite (sigma_uni_formula [1, 2] 1))
    \<and> lambda_uni exact_arithmetic [1, 2] 1 = Some (Finite (lambda_uni_formula [1, 2] 1))
    \<and> sigma_all exact_arithmetic [1, 2] = Finite (sigma_all_formula [1, 2] 1)
    \<and> lambda_all exact_arithmetic [1, 2] 1 = Finite (lambda_all_formula [1, 2] 1)"
    by metis
  then have "sigma_uni exact_arithmetic [1, 2] 1 = Some (Finite 1)
    \<and> lambda_uni exact_arithmetic [1, 2] 1 = Some (Finite 0)
    \<and> sigma_all exact_arithmetic [1, 2] = Finite (sqrt (3 / 2))
    \<and> lambda_all exact_arithmetic [1, 2] 1 = Finite (ln 2)"
    unfolding f1 f2 f3 f4 .
  moreover have "0 < [1, 2 :: real] ! 0 \<and> 0 < [1, 2 :: real] ! 1" by simp
  ultimately show ?thesis using h1 h2 by blast
qed

text \<open>
  C4 as stated fails in doubles: the value returned is not the real number of the
  formula where a partial sum overflows. Take \<open>n = 2\<close> and the four entries
  \<open>1 / 2 ^ 1022\<close>, the smallest positive normal binary64 number. Each quotient
  \<open>1 / C[b]\<close> is \<open>2 ^ 1022\<close>, and the partial sums of \<^verbatim>\<open>sigma_all\<close> are
  \<open>2 ^ 1022\<close>, \<open>2 ^ 1023\<close>, \<open>3 * 2 ^ 1022\<close> and \<open>2 ^ 1024\<close>. The first three are
  binary64 numbers, so that no rounding takes place, and the fourth is beyond the
  largest binary64 number: the code returns infinity, where the formula gives
  \<open>2 ^ 512\<close>.
\<close>

lemma overflow_simps:
  "round_op overflow_arithmetic = range_limited"
  by (simp add: overflow_arithmetic_def)

theorem estimators_formulas_counterexample:
  "length (replicate 4 (1 / 2 ^ 1022 :: real)) = 2 ^ 2
   \<and> (0::real) < 1 / 2 ^ 1022
   \<and> sigma_all overflow_arithmetic (replicate 4 (1 / 2 ^ 1022)) = NotFinite
   \<and> sigma_all_formula (replicate 4 (1 / 2 ^ 1022)) 2 = 2 ^ 512"
proof -
  have r: "replicate 4 (1 / 2 ^ 1022 :: real) =
      [1 / 2 ^ 1022, 1 / 2 ^ 1022, 1 / 2 ^ 1022, 1 / 2 ^ 1022]"
    by (simp add: eval_nat_numeral)
  have a: "sigma_all overflow_arithmetic (replicate 4 (1 / 2 ^ 1022)) = NotFinite"
    unfolding r
    by (simp add: sigma_all_def sigma_all_loop.simps overflow_simps range_limited_def)
  have "((2::real) ^ 512)\<^sup>2 = 2 ^ 1024"
    by (simp only: power_mult [symmetric]) simp
  then have sq: "sqrt ((2::real) ^ 1024) = 2 ^ 512"
    by (rule real_sqrt_unique) simp
  have sum: "(\<Sum>b<2 ^ 2. 1 / [1 / 2 ^ 1022, 1 / 2 ^ 1022, 1 / 2 ^ 1022, 1 / 2 ^ 1022 :: real] ! b)
      = 2 ^ 1024"
    by (simp add: lessThan_Suc eval_nat_numeral)
  have b: "sigma_all_formula (replicate 4 (1 / 2 ^ 1022)) 2 = 2 ^ 512"
    unfolding r sigma_all_formula_def sum sq ..
  have c: "length (replicate 4 (1 / 2 ^ 1022 :: real)) = 2 ^ 2" by simp
  have d: "(0::real) < 1 / 2 ^ 1022" by simp
  from c d a b show ?thesis by (intro conjI)
qed

subsection \<open>Finite results\<close>




























section \<open>Properties of the candidate estimator\<close>

lemma vec_at_eq_Some: "vec_at xs i = Some x \<longleftrightarrow> i < length xs \<and> x = xs ! i"
  by (auto simp: vec_at_def)
















lemma exact_arithmetic_ieee_like: "ieee_like exact_arithmetic"
proof -
  have "bounded_rounding Finite" by (simp add: bounded_rounding_def)
  moreover have "library_rounding Finite"
    unfolding library_rounding_def binary64_bound_def by fastforce
  ultimately show ?thesis by (simp add: ieee_like_def exact_arithmetic_def)
qed




section \<open>Properties of the driver\<close>

lemma vec_set_eq_Some: "vec_set xs i v = Some ys \<longleftrightarrow> i < length xs \<and> ys = xs[i := v]"
  by (auto simp: vec_set_def)

lemma estimates_frame:
  assumes "estimates A k seqs cs ss ls meth cm = Some (ss', ls')"
  shows "length ss' = length ss \<and> length ls' = length ls
    \<and> (\<forall>i. i \<noteq> k \<longrightarrow> ss' ! i = ss ! i \<and> ls' ! i = ls ! i)
    \<and> (length (seqs ! k) = 1 \<or> cs ! k < cm \<longrightarrow> ss' = ss \<and> ls' = ls)"
  using assms
  by (auto simp: estimates_def vec_at_eq_Some vec_set_eq_Some split: bind_splits if_splits)

lemma estimates_loop_frame:
  assumes "estimates_loop A i seqs cs ss ls meth cm = Some (ss', ls')"
  shows "length ss' = length ss \<and> length ls' = length ls
    \<and> (\<forall>k. k < i \<or> length (seqs ! k) = 1 \<or> cs ! k < cm \<longrightarrow>
           ss' ! k = ss ! k \<and> ls' ! k = ls ! k)"
  using assms
proof (induction "length seqs - i" arbitrary: i ss ls)
  case 0
  then show ?case by (subst (asm) estimates_loop.simps) simp
next
  case (Suc d)
  then have lt: "i < length seqs" by simp
  have d: "d = length seqs - Suc i" using Suc.hyps(2) by simp
  from Suc.prems lt obtain ss1 ls1 where
    e: "estimates A i seqs cs ss ls meth cm = Some (ss1, ls1)"
    and r: "estimates_loop A (Suc i) seqs cs ss1 ls1 meth cm = Some (ss', ls')"
    by (subst (asm) estimates_loop.simps) (auto split: option.splits)
  note f = estimates_frame [OF e]
  note ih = Suc.hyps(1) [OF d r]
  show ?case
  proof (intro conjI allI impI)
    show "length ss' = length ss" using f ih by simp
    show "length ls' = length ls" using f ih by simp
  next
    fix k
    assume k: "k < i \<or> length (seqs ! k) = 1 \<or> cs ! k < cm"
    then have "ss' ! k = ss1 ! k \<and> ls' ! k = ls1 ! k" using ih by auto
    moreover have "ss1 ! k = ss ! k \<and> ls1 ! k = ls ! k"
    proof (cases "k = i")
      case True
      with k have "length (seqs ! i) = 1 \<or> cs ! i < cm" by simp
      with f have "ss1 = ss \<and> ls1 = ls" by blast
      then show ?thesis by simp
    next
      case False
      with f show ?thesis by simp
    qed
    ultimately show "ss' ! k = ss ! k" and "ls' ! k = ls ! k" by simp_all
  qed
qed

lemma qatd_records:
  assumes "qatd_cpp_sequences A texts count_min len_min len_max meth nested = Some recs"
  shows "length recs = length (counts_texts texts [] len_min len_max nested)
    \<and> (\<forall>i<length recs.
          collocation (recs ! i) = fst (counts_texts texts [] len_min len_max nested ! i)
        \<and> count (recs ! i) = int (snd (counts_texts texts [] len_min len_max nested ! i))
        \<and> len (recs ! i) = length (collocation (recs ! i))
        \<and> (len (recs ! i) = 1 \<or> count (recs ! i) < sint count_min \<longrightarrow>
             lambda (recs ! i) = Finite 0 \<and> sigma (recs ! i) = Finite 0))"
proof -
  let ?tbl = "counts_texts texts [] len_min len_max nested"
  let ?seqs = "map fst ?tbl"
  let ?cs = "map (\<lambda>(k, c). int c) ?tbl"
  let ?z = "replicate (length ?tbl) (Finite 0)"
  from assms obtain ss' ls' where
    loop: "estimates_loop A 0 ?seqs ?cs ?z ?z meth (sint count_min) = Some (ss', ls')"
    and recs: "recs = map (\<lambda>i. \<lparr>collocation = ?seqs ! i, count = ?cs ! i,
        len = map (\<lambda>(k, c). length k) ?tbl ! i, lambda = ls' ! i, sigma = ss' ! i\<rparr>)
        [0..<length ?seqs]"
    by (auto simp: qatd_cpp_sequences_def Let_def split: option.splits)
  note f = estimates_loop_frame [OF loop]
  show ?thesis
  proof (intro conjI allI impI)
    show "length recs = length ?tbl" by (simp add: recs)
  next
    fix i assume i: "i < length recs"
    then have it: "i < length ?tbl" by (simp add: recs)
    show "collocation (recs ! i) = fst (?tbl ! i)" using it by (simp add: recs)
    show "count (recs ! i) = int (snd (?tbl ! i))" using it by (simp add: recs split_beta)
    show "len (recs ! i) = length (collocation (recs ! i))" using it by (simp add: recs split_beta)
    assume "len (recs ! i) = 1 \<or> count (recs ! i) < sint count_min"
    then have "length (?seqs ! i) = 1 \<or> ?cs ! i < sint count_min"
      using it by (simp add: recs split_beta)
    with f have "ss' ! i = ?z ! i \<and> ls' ! i = ?z ! i" by blast
    with it show "lambda (recs ! i) = Finite 0" and "sigma (recs ! i) = Finite 0"
      by (simp_all add: recs)
  qed
qed

lemma counts_ex1: "counts_texts [[5]] [] 1 1 True = [([5], 1)]"
  by code_simp

lemma qatd_ex1:
  "qatd_cpp_sequences exact_arithmetic [[5]] 1 1 1 ''unigram'' True =
     Some [\<lparr>collocation = [5], count = 1, len = 1, lambda = Finite 0, sigma = Finite 0\<rparr>]"
  unfolding qatd_cpp_sequences_def counts_ex1
  by (simp add: estimates_loop.simps estimates_def vec_at_def)

lemma counts_ex2: "counts_texts [[7]] [] 0 0 False = [([], 2)]"
  by code_simp

lemma qatd_ex2:
  "qatd_cpp_sequences exact_arithmetic [[7]] 1 0 0 ''all_subtuples'' False =
     Some [\<lparr>collocation = [], count = 2, len = 0,
            lambda = Finite (ln (3 / 2)), sigma = Finite (sqrt (2 / 3))\<rparr>]"
  unfolding qatd_cpp_sequences_def counts_ex2
  by (simp add: estimates_loop.simps estimates_def vec_at_def
      vec_set_def contingency_def counts_bit_loop.simps sigma_all_def sigma_all_loop.simps
      lambda_all_def lambda_all_loop.simps dlog_def pow_minus1_def bitCount_def
      bitCount_loop.simps exact_arithmetic_def)

lemma estimates_loop_Nil: "estimates_loop A 0 [] cs ss ls meth cm = Some (ss, ls)"
  by (subst estimates_loop.simps) simp

lemma qatd_range_empty:
  assumes "len_max < len_min"
  shows "qatd_cpp_sequences A texts count_min len_min len_max meth nested = Some []"
  using assms
  by (simp add: qatd_cpp_sequences_def counts_texts_range_empty estimates_loop_Nil)

lemma counts_ex3: "counts_texts [[1, 2]] [] 2 2 False = [([1, 2], 1)]"
  by code_simp

lemma qatd_ex3:
  "qatd_cpp_sequences exact_arithmetic [[1, 2]] 5 2 2 ''unigram'' False =
     Some [\<lparr>collocation = [1, 2], count = 1, len = 2, lambda = Finite 0, sigma = Finite 0\<rparr>]"
  unfolding qatd_cpp_sequences_def counts_ex3
  by (simp add: estimates_loop.simps estimates_def vec_at_def)

text \<open>
  C8, as the code has it. The driver emits one record for each key of the frequency
  table, in the order of the table, with the sequence, its count and its length. A
  record whose sequence has length 1, or whose count is below \<open>count_min\<close> (compared as
  the int that \<open>estimates\<close> receives), keeps the 0.0 that the vectors \<open>ls\<close> and \<open>ss\<close>
  are filled with: its lambda and sigma are the number 0, and no value marks them as
  absent.
\<close>

theorem qatd_skipped_records:
  assumes "qatd_cpp_sequences A texts count_min len_min len_max method nested = Some recs"
  shows "length recs = length (counts_texts texts [] len_min len_max nested)
    \<and> (\<forall>i<length recs.
          collocation (recs ! i) = fst (counts_texts texts [] len_min len_max nested ! i)
        \<and> count (recs ! i) = int (snd (counts_texts texts [] len_min len_max nested ! i))
        \<and> len (recs ! i) = length (collocation (recs ! i))
        \<and> (len (recs ! i) = 1 \<or> count (recs ! i) < sint count_min \<longrightarrow>
             lambda (recs ! i) = Finite 0 \<and> sigma (recs ! i) = Finite 0))"
  using assms by (rule qatd_records)

theorem qatd_skipped_records_witness:
  "qatd_cpp_sequences exact_arithmetic [[1, 2]] 5 2 2 ''unigram'' False =
     Some [\<lparr>collocation = [1, 2], count = 1, len = 2, lambda = Finite 0, sigma = Finite 0\<rparr>]
   \<and> counts_texts [[1, 2]] [] 2 2 False = [([1, 2], 1)]
   \<and> (1::int) < sint (5 :: 32 word)
   \<and> lambda ([\<lparr>collocation = [1, 2], count = 1, len = 2, lambda = Finite 0,
                   sigma = Finite 0\<rparr>] ! 0) = Finite 0
   \<and> sigma ([\<lparr>collocation = [1, 2], count = 1, len = 2, lambda = Finite 0,
                  sigma = Finite 0\<rparr>] ! 0) = Finite 0"
proof -
  have s: "(1::int) < sint (5 :: 32 word)" by simp
  from qatd_skipped_records [OF qatd_ex3]
  have "lambda ([\<lparr>collocation = [1, 2], count = 1, len = 2, lambda = Finite 0,
                   sigma = Finite 0\<rparr>] ! 0) = Finite 0
      \<and> sigma ([\<lparr>collocation = [1, 2], count = 1, len = 2, lambda = Finite 0,
                  sigma = Finite 0\<rparr>] ! 0) = Finite 0"
    by simp
  with qatd_ex3 counts_ex3 s show ?thesis by blast
qed

text \<open>
  C8 as stated fails: the record of a sequence of length 1, and the record of a sequence
  with a count below \<open>count_min\<close>, carry the numbers \<open>lambda = 0\<close> and \<open>sigma = 0\<close>.
\<close>

theorem qatd_skipped_records_counterexample:
  "qatd_cpp_sequences exact_arithmetic [[5]] 1 1 1 ''unigram'' True =
     Some [\<lparr>collocation = [5], count = 1, len = 1, lambda = Finite 0, sigma = Finite 0\<rparr>]
   \<and> qatd_cpp_sequences exact_arithmetic [[1, 2]] 5 2 2 ''unigram'' False =
     Some [\<lparr>collocation = [1, 2], count = 1, len = 2, lambda = Finite 0, sigma = Finite 0\<rparr>]"
  using qatd_ex1 qatd_ex3 by (rule conjI)

text \<open>
  C7, as the code has it. The driver checks no range and has no error of its own. When
  \<open>len_min > len_max\<close>, which covers \<open>len_max = 0\<close> with \<open>len_min \<ge> 1\<close>, the texts are
  scanned, no run reaches \<open>len_min\<close>, the frequency table stays empty and the driver
  returns an empty result. When \<open>len_min = 0\<close> and some text is not empty, the
  frequency table is not empty, and neither is the result of the driver.
\<close>

theorem qatd_no_range_check:
  "(len_max < len_min \<longrightarrow>
      counts_texts texts [] len_min len_max nested = []
      \<and> qatd_cpp_sequences A texts count_min len_min len_max method nested = Some [])
   \<and> (len_min = 0 \<and> (\<exists>t\<in>set texts. t \<noteq> []) \<longrightarrow>
      counts_texts texts [] len_min len_max nested \<noteq> []
      \<and> qatd_cpp_sequences A texts count_min len_min len_max method nested \<noteq> Some [])"
proof (intro conjI impI)
  assume "len_max < len_min"
  then show "counts_texts texts [] len_min len_max nested = []"
    and "qatd_cpp_sequences A texts count_min len_min len_max method nested = Some []"
    by (simp_all add: counts_texts_range_empty qatd_range_empty)
next
  assume a: "len_min = 0 \<and> (\<exists>t\<in>set texts. t \<noteq> [])"
  then show ne: "counts_texts texts [] len_min len_max nested \<noteq> []"
    by (simp add: counts_texts_zero_min)
  show "qatd_cpp_sequences A texts count_min len_min len_max method nested \<noteq> Some []"
  proof
    assume "qatd_cpp_sequences A texts count_min len_min len_max method nested = Some []"
    from qatd_records [OF this] ne show False by simp
  qed
qed

theorem qatd_no_range_check_witness:
  "(1::nat) < 2
   \<and> counts_texts [[1, 2]] [] 2 1 False = []
   \<and> qatd_cpp_sequences exact_arithmetic [[1, 2]] 1 2 1 ''unigram'' False = Some []
   \<and> (0::nat) = 0 \<and> (\<exists>t\<in>set [[7 :: token]]. t \<noteq> [])
   \<and> counts_texts [[7]] [] 0 0 False \<noteq> []
   \<and> qatd_cpp_sequences exact_arithmetic [[7]] 1 0 0 ''all_subtuples'' False \<noteq> Some []"
  using qatd_no_range_check [of 1 2 "[[1, 2]]" False exact_arithmetic 1 "''unigram''"]
    qatd_no_range_check [of 0 0 "[[7]]" False exact_arithmetic 1 "''all_subtuples''"]
  by simp

text \<open>
  C7 as stated fails: with \<open>len_min = len_max = 0\<close> the driver counts the empty sequence
  twice in the text \<open>[7]\<close>, estimates it and returns its record. The sequence, the
  count and the length of the record are the same in every arithmetic; its lambda and
  sigma are written in the arithmetic that rounds nothing.
\<close>

theorem qatd_no_range_check_counterexample:
  "qatd_cpp_sequences exact_arithmetic [[7]] 1 0 0 ''all_subtuples'' False =
     Some [\<lparr>collocation = [], count = 2, len = 0,
            lambda = Finite (ln (3 / 2)), sigma = Finite (sqrt (2 / 3))\<rparr>]"
  by (rule qatd_ex2)

end
